theory Spec2Isabelle
  imports Complex_Main "HOL-Library.DAList"
begin

section \<open>The priority queue of \<open>priority_queue.py\<close>\<close>

subsection \<open>Data\<close>

text \<open>
  The three state constants \<open>STATE_WAITING\<close>, \<open>STATE_ERROR\<close> and \<open>STATE_SUCCESS\<close>.
\<close>

datatype state = WAITING | ERROR | SUCCESS

text \<open>
  The dictionary \<open>data\<close> that \<open>add_task\<close> stores for a task. Its key \<open>'log'\<close> is the field
  \<open>log_data\<close> here (\<open>None\<close> as in Python until the task has run, then the bytes the
  command printed); \<open>time_processing\<close> is a float in the source and a real number here.
\<close>

record task_data =
  command :: string
  state :: state
  log_data :: "string option"
  time_processing :: real

text \<open>
  The dictionary a caller hands to \<open>add_task\<close>. The source reads two keys of it,
  \<open>task['priority']\<close> and \<open>task['command']\<close>; a key that is absent (the lookup raises
  \<open>KeyError\<close>) is \<open>None\<close>. A priority is an integer and a command a string.
\<close>

record task =
  task_priority :: "int option"
  task_command :: "string option"

text \<open>
  What the logger \<open>self.log\<close> receives, one constructor per logging call of the source,
  with the values the message is formatted from.
\<close>

datatype log_event =
    Error_priority int
  | Error_keys
  | Debug_add int string
  | Debug_task int string
  | Debug_result state real
  | Debug_log_error "string option"
  | Debug_clear
  | Info_start
  | Info_processed nat real

text \<open>
  The object: \<open>self._queue\<close>, a \<open>defaultdict(list)\<close> from priority to the list of the
  tasks of that priority, and what has been sent to \<open>self.log\<close> so far. A Python
  dictionary holds each key once and keeps the keys in insertion order, which is an
  association list with distinct keys.
\<close>

record pq =
  queue :: "(int, task_data list) alist"
  logged :: "log_event list"

text \<open>
  The exceptions that leave a method of the class: \<open>IndexError\<close> from indexing a list
  out of range, and what \<open>subprocess.check_output\<close> raises besides
  \<open>CalledProcessError\<close>, which no method catches: \<open>ValueError\<close> for a command with a NUL
  byte, \<open>OSError\<close> for one the system cannot start. A method's result is the value it
  returns or the exception it raises, together with the object as the call left it.
\<close>

datatype exn = IndexError | ValueError | OSError

datatype 'a result = Raised exn | Returned 'a

text \<open>
  The world outside the object. \<open>subprocess.check_output\<close> returns the bytes the
  command printed, or raises \<open>CalledProcessError\<close>, whose \<open>output\<close> holds them, or raises
  another exception. Running a command may change the world \<open>'w\<close>; \<open>time.time()\<close> reads
  the world's clock, of which nothing is assumed.
\<close>

datatype outcome = Output string | CalledProcessError string | Raises exn

record 'w env =
  check_output :: "string \<Rightarrow> 'w \<Rightarrow> outcome \<times> 'w"
  time :: "'w \<Rightarrow> real"

text \<open>
  A runner that raises nothing but \<open>CalledProcessError\<close>, whatever the command and the
  world.
\<close>

definition two_outcomes :: "'w env \<Rightarrow> bool" where
  "two_outcomes env = (\<forall>c w e. fst (check_output env c w) \<noteq> Raises e)"

subsection \<open>Dictionary and list access\<close>

text \<open>
  \<open>self._queue[k]\<close> on a \<open>defaultdict(list)\<close>: a key that is absent is first inserted
  with a new empty list, which is then the value of the lookup.
\<close>

definition getitem :: "int \<Rightarrow> (int, task_data list) alist \<Rightarrow> task_data list \<times> (int, task_data list) alist" where
  "getitem k q =
     (case DAList.lookup q k of
        Some v \<Rightarrow> (v, q)
      | None \<Rightarrow> ([], DAList.update k [] q))"

text \<open>
  The position a Python list index denotes: a negative index counts from the end, and
  an index outside the list raises \<open>IndexError\<close> (\<open>None\<close> here).
\<close>

definition list_index :: "'a list \<Rightarrow> int \<Rightarrow> nat option" where
  "list_index xs i =
     (let n = int (length xs); j = (if i < 0 then n + i else i)
      in if 0 \<le> j \<and> j < n then Some (nat j) else None)"

subsection \<open>The methods\<close>

definition log_to :: "log_event \<Rightarrow> pq \<Rightarrow> pq" where
  "log_to e s = s\<lparr>logged := logged s @ [e]\<rparr>"

text \<open>
  \<open>add_task\<close>. The lookups happen in the source's order: \<open>task['priority']\<close> for the
  range check, then \<open>task['command']\<close> while \<open>data\<close> is built, each caught by
  \<open>except KeyError\<close>; the queue is touched only after both.
\<close>

definition add_task :: "task \<Rightarrow> pq \<Rightarrow> bool \<times> pq" where
  "add_task task s =
     (case task_priority task of
        None \<Rightarrow> (False, log_to Error_keys s)
      | Some p \<Rightarrow>
          if \<not> (1 \<le> p \<and> p \<le> 10) then (False, log_to (Error_priority p) s)
          else
            (case task_command task of
               None \<Rightarrow> (False, log_to Error_keys s)
             | Some c \<Rightarrow>
                 let data = \<lparr>command = c, state = WAITING, log_data = None, time_processing = 0\<rparr>;
                     (bucket, q) = getitem p (queue s)
                 in (True, log_to (Debug_add p c) (s\<lparr>queue := DAList.update p (bucket @ [data]) q\<rparr>))))"

text \<open>
  \<open>__init__\<close>: an empty queue, then \<open>add_task\<close> for each task given, its result dropped.
\<close>

definition empty_pq :: pq where
  "empty_pq = \<lparr>queue = DAList.empty, logged = []\<rparr>"

definition init :: "task list \<Rightarrow> pq" where
  "init tasks = fold (\<lambda>task s. snd (add_task task s)) tasks empty_pq"

text \<open>
  The part of \<open>_execute\<close> between the two clock readings: the command is run, and the
  dictionary \<open>data\<close> gets its output, its state and the time the call took. An
  exception other than \<open>CalledProcessError\<close> leaves the \<open>try\<close> statement before
  anything is written to \<open>data\<close>.
\<close>

definition execute_data :: "'w env \<Rightarrow> task_data \<Rightarrow> 'w \<Rightarrow> task_data result \<times> 'w" where
  "execute_data env data w =
     (let start = time env w;
          (out, w') = check_output env (command data) w
      in case out of
           Output b \<Rightarrow>
             (Returned (data\<lparr>log_data := Some b, state := SUCCESS, time_processing := time env w' - start\<rparr>), w')
         | CalledProcessError b \<Rightarrow>
             (Returned (data\<lparr>log_data := Some b, state := ERROR, time_processing := time env w' - start\<rparr>), w')
         | Raises e \<Rightarrow> (Raised e, w'))"

text \<open>
  \<open>_execute\<close>. \<open>self._queue[priority]\<close> is the defaultdict lookup, so it may insert a
  bucket before \<open>[task_index]\<close> raises. \<open>data\<close> is the dictionary stored in the bucket,
  so writing to it changes the task at that position of the bucket. An exception of the
  runner that is not caught leaves \<open>_execute\<close> after the first message is logged.
\<close>

definition execute :: "'w env \<Rightarrow> int \<Rightarrow> int \<Rightarrow> pq \<Rightarrow> 'w \<Rightarrow> bool result \<times> pq \<times> 'w" where
  "execute env priority task_index s w =
     (let (bucket, q) = getitem priority (queue s);
          s1 = s\<lparr>queue := q\<rparr>
      in case list_index bucket task_index of
           None \<Rightarrow> (Raised IndexError, s1, w)
         | Some i \<Rightarrow>
             let data = bucket ! i;
                 s2 = log_to (Debug_task priority (command data)) s1
             in case execute_data env data w of
                  (Raised e, w') \<Rightarrow> (Raised e, s2, w')
                | (Returned data', w') \<Rightarrow>
                    let s3 = s2\<lparr>queue := DAList.update priority (bucket[i := data']) q\<rparr>;
                        s4 = log_to (Debug_result (state data') (time_processing data')) s3
                    in if state data' = ERROR
                       then (Returned False, log_to (Debug_log_error (log_data data')) s4, w')
                       else (Returned True, s4, w'))"

definition clear_queue :: "pq \<Rightarrow> pq" where
  "clear_queue s = (log_to Debug_clear s)\<lparr>queue := DAList.empty\<rparr>"

text \<open>
  \<open>sorted(_queue.items(), reverse=True)\<close>: the keys of a dictionary are distinct, so
  the pairs are ordered by their keys alone, largest first.
\<close>

definition sorted_reverse :: "(int \<times> 'a) list \<Rightarrow> (int \<times> 'a) list" where
  "sorted_reverse items = rev (sort_key fst items)"

text \<open>
  The inner loop of \<open>run\<close> over \<open>enumerate(commands)\<close>, with the local variables \<open>result\<close>
  and \<open>count\<close>. An exception of \<open>_execute\<close> would end the loop and leave \<open>run\<close>.
\<close>

fun run_commands :: "'w env \<Rightarrow> int \<Rightarrow> (nat \<times> task_data) list \<Rightarrow> bool list \<Rightarrow> nat \<Rightarrow> pq \<Rightarrow> 'w
    \<Rightarrow> (bool list \<times> nat) result \<times> pq \<times> 'w" where
  "run_commands env priority [] result count s w = (Returned (result, count), s, w)"
| "run_commands env priority ((index, command_data) # rest) result count s w =
     (if state command_data = WAITING then
        (case execute env priority (int index) s w of
           (Raised e, s', w') \<Rightarrow> (Raised e, s', w')
         | (Returned b, s', w') \<Rightarrow> run_commands env priority rest (result @ [b]) (count + 1) s' w')
      else run_commands env priority rest result count s w)"

text \<open>The outer loop of \<open>run\<close> over the sorted items.\<close>

fun run_items :: "'w env \<Rightarrow> (int \<times> task_data list) list \<Rightarrow> bool list \<Rightarrow> nat \<Rightarrow> pq \<Rightarrow> 'w
    \<Rightarrow> (bool list \<times> nat) result \<times> pq \<times> 'w" where
  "run_items env [] result count s w = (Returned (result, count), s, w)"
| "run_items env ((priority, commands) # items) result count s w =
     (case run_commands env priority (enumerate 0 commands) result count s w of
        (Raised e, s', w') \<Rightarrow> (Raised e, s', w')
      | (Returned (result', count'), s', w') \<Rightarrow> run_items env items result' count' s' w')"

text \<open>
  \<open>run\<close>. \<open>self._queue.copy()\<close> is a new dictionary of the same lists, so the loop walks
  the keys the queue had when \<open>run\<close> was called; each \<open>command_data\<close> is read before
  the only call that writes to it.
\<close>

definition run :: "'w env \<Rightarrow> bool \<Rightarrow> pq \<Rightarrow> 'w \<Rightarrow> bool result \<times> pq \<times> 'w" where
  "run env auto_clear s w =
     (let s1 = log_to Info_start s;
          start = time env w;
          items = sorted_reverse (DAList.impl_of (queue s1))
      in case run_items env items [] 0 s1 w of
           (Raised e, s', w') \<Rightarrow> (Raised e, s', w')
         | (Returned (result, count), s', w') \<Rightarrow>
             let s2 = log_to (Info_processed count (time env w' - start)) s';
                 s3 = (if auto_clear then clear_queue s2 else s2)
             in (Returned (list_all (\<lambda>b. b) result), s3, w'))"

subsection \<open>Example values\<close>

text \<open>
  A runner in the manner of the mocks of \<open>test_priority_queue.py\<close>: the world is the list
  of the commands run so far, the command \<open>exit 1\<close> fails with output \<open>boom\<close>, every other
  command prints \<open>OK\<close>, and the clock advances by one second per command.
\<close>

definition stub_env :: "string list env" where
  "stub_env =
     \<lparr>check_output = (\<lambda>c w. (if c = ''exit 1'' then CalledProcessError ''boom'' else Output ''OK'', w @ [c])),
      time = (\<lambda>w. real (length w))\<rparr>"

text \<open>The dictionary \<open>{"command": c, "priority": p}\<close>, and the task \<open>add_task\<close> stores for it.\<close>

definition new_task :: "int \<Rightarrow> string \<Rightarrow> task" where
  "new_task p c = \<lparr>task_priority = Some p, task_command = Some c\<rparr>"

definition waiting_task :: "string \<Rightarrow> task_data" where
  "waiting_task c = \<lparr>command = c, state = WAITING, log_data = None, time_processing = 0\<rparr>"

text \<open>
  Two queues as \<open>__init__\<close> builds them: the tasks of priorities 1, 10 and 1 of the
  scenario, and a queue whose task of priority 5 fails.
\<close>

definition three_tasks :: pq where
  "three_tasks = init [new_task 1 ''first'', new_task 10 ''ten'', new_task 1 ''second'']"

definition failing_tasks :: pq where
  "failing_tasks = init [new_task 5 ''exit 1'', new_task 7 ''dir'']"

text \<open>A runner whose clock is set back by one second while each command runs.\<close>

definition backward_env :: "string list env" where
  "backward_env =
     \<lparr>check_output = (\<lambda>c w. (Output ''OK'', w @ [c])),
      time = (\<lambda>w. - real (length w))\<rparr>"



text \<open>The queue \<open>failing_tasks\<close> after one pass without \<open>auto_clear\<close>.\<close>

definition failed_once :: pq where
  "failed_once = fst (snd (run stub_env False failing_tasks []))"

subsection \<open>Sequences of calls\<close>

text \<open>
  A caller's program: calls of the three public methods, one after the other, the values
  they return dropped. An exception would end the sequence where it is raised.
\<close>

datatype op = Add_task task | Run bool | Clear_queue

fun apply_op :: "'w env \<Rightarrow> op \<Rightarrow> pq \<Rightarrow> 'w \<Rightarrow> unit result \<times> pq \<times> 'w" where
  "apply_op env (Add_task task) s w = (Returned (), snd (add_task task s), w)"
| "apply_op env (Run auto_clear) s w =
     (case run env auto_clear s w of
        (Raised e, s', w') \<Rightarrow> (Raised e, s', w')
      | (Returned b, s', w') \<Rightarrow> (Returned (), s', w'))"
| "apply_op env Clear_queue s w = (Returned (), clear_queue s, w)"

fun apply_ops :: "'w env \<Rightarrow> op list \<Rightarrow> pq \<Rightarrow> 'w \<Rightarrow> unit result \<times> pq \<times> 'w" where
  "apply_ops env [] s w = (Returned (), s, w)"
| "apply_ops env (x # xs) s w =
     (case apply_op env x s w of
        (Raised e, s', w') \<Rightarrow> (Raised e, s', w')
      | (Returned u, s', w') \<Rightarrow> apply_ops env xs s' w')"

text \<open>The calls that empty the queue: \<open>clear_queue()\<close> and \<open>run(auto_clear=True)\<close>.\<close>

fun clears :: "op \<Rightarrow> bool" where
  "clears (Add_task task) = False"
| "clears (Run auto_clear) = auto_clear"
| "clears Clear_queue = True"

text \<open>The task at position \<open>i\<close> of the bucket of priority \<open>p\<close>, if there is one.\<close>

definition task_at :: "(int, task_data list) alist \<Rightarrow> int \<Rightarrow> nat \<Rightarrow> task_data option" where
  "task_at q p i =
     (case DAList.lookup q p of
        None \<Rightarrow> None
      | Some bucket \<Rightarrow> if i < length bucket then Some (bucket ! i) else None)"

section \<open>A pass of \<open>run\<close> in closed form\<close>

text \<open>
  What the loops of \<open>run\<close> compute, written by recursion over one bucket and over the
  list of buckets; the lemmas below show that \<open>run\<close> computes exactly this. For a bucket
  \<open>ds\<close> walked from the world \<open>w\<close>, every waiting task being executed in turn until the
  bucket ends or the runner raises an exception that is not caught: \<open>bucket_exn\<close> is that
  exception, if any, \<open>bucket_world\<close> the world after the walk, \<open>bucket_after\<close> the bucket
  as the walk leaves it, \<open>bucket_results\<close> what is appended to \<open>result\<close>, \<open>bucket_events\<close>
  what is logged, and \<open>bucket_ran\<close> the number of commands handed to the runner.
\<close>

primrec bucket_exn :: "'w env \<Rightarrow> task_data list \<Rightarrow> 'w \<Rightarrow> exn option" where
  "bucket_exn env [] w = None"
| "bucket_exn env (d # ds) w =
     (if state d = WAITING
      then (case execute_data env d w of
              (Raised e, w') \<Rightarrow> Some e
            | (Returned d', w') \<Rightarrow> bucket_exn env ds w')
      else bucket_exn env ds w)"

primrec bucket_world :: "'w env \<Rightarrow> task_data list \<Rightarrow> 'w \<Rightarrow> 'w" where
  "bucket_world env [] w = w"
| "bucket_world env (d # ds) w =
     (if state d = WAITING
      then (case execute_data env d w of
              (Raised e, w') \<Rightarrow> w'
            | (Returned d', w') \<Rightarrow> bucket_world env ds w')
      else bucket_world env ds w)"

primrec bucket_after :: "'w env \<Rightarrow> task_data list \<Rightarrow> 'w \<Rightarrow> task_data list" where
  "bucket_after env [] w = []"
| "bucket_after env (d # ds) w =
     (if state d = WAITING
      then (case execute_data env d w of
              (Raised e, w') \<Rightarrow> d # ds
            | (Returned d', w') \<Rightarrow> d' # bucket_after env ds w')
      else d # bucket_after env ds w)"

primrec bucket_results :: "'w env \<Rightarrow> task_data list \<Rightarrow> 'w \<Rightarrow> bool list" where
  "bucket_results env [] w = []"
| "bucket_results env (d # ds) w =
     (if state d = WAITING
      then (case execute_data env d w of
              (Raised e, w') \<Rightarrow> []
            | (Returned d', w') \<Rightarrow> (state d' \<noteq> ERROR) # bucket_results env ds w')
      else bucket_results env ds w)"

definition task_events :: "int \<Rightarrow> task_data \<Rightarrow> task_data \<Rightarrow> log_event list" where
  "task_events p d d' =
     [Debug_task p (command d), Debug_result (state d') (time_processing d')] @
     (if state d' = ERROR then [Debug_log_error (log_data d')] else [])"

primrec bucket_events :: "'w env \<Rightarrow> int \<Rightarrow> task_data list \<Rightarrow> 'w \<Rightarrow> log_event list" where
  "bucket_events env p [] w = []"
| "bucket_events env p (d # ds) w =
     (if state d = WAITING
      then (case execute_data env d w of
              (Raised e, w') \<Rightarrow> [Debug_task p (command d)]
            | (Returned d', w') \<Rightarrow> task_events p d d' @ bucket_events env p ds w')
      else bucket_events env p ds w)"

primrec bucket_ran :: "'w env \<Rightarrow> task_data list \<Rightarrow> 'w \<Rightarrow> nat" where
  "bucket_ran env [] w = 0"
| "bucket_ran env (d # ds) w =
     (if state d = WAITING
      then (case execute_data env d w of
              (Raised e, w') \<Rightarrow> 1
            | (Returned d', w') \<Rightarrow> Suc (bucket_ran env ds w'))
      else bucket_ran env ds w)"

text \<open>
  The same for a list of buckets walked one after the other; the walk ends with the
  bucket in which an exception is raised.
\<close>

fun items_exn :: "'w env \<Rightarrow> (int \<times> task_data list) list \<Rightarrow> 'w \<Rightarrow> exn option" where
  "items_exn env [] w = None"
| "items_exn env ((p, ds) # its) w =
     (case bucket_exn env ds w of
        Some e \<Rightarrow> Some e
      | None \<Rightarrow> items_exn env its (bucket_world env ds w))"

fun items_world :: "'w env \<Rightarrow> (int \<times> task_data list) list \<Rightarrow> 'w \<Rightarrow> 'w" where
  "items_world env [] w = w"
| "items_world env ((p, ds) # its) w =
     (case bucket_exn env ds w of
        Some e \<Rightarrow> bucket_world env ds w
      | None \<Rightarrow> items_world env its (bucket_world env ds w))"

fun items_after :: "'w env \<Rightarrow> (int \<times> task_data list) list \<Rightarrow> 'w \<Rightarrow> (int \<times> task_data list) list" where
  "items_after env [] w = []"
| "items_after env ((p, ds) # its) w =
     (p, bucket_after env ds w) #
     (case bucket_exn env ds w of
        Some e \<Rightarrow> its
      | None \<Rightarrow> items_after env its (bucket_world env ds w))"

fun items_results :: "'w env \<Rightarrow> (int \<times> task_data list) list \<Rightarrow> 'w \<Rightarrow> bool list" where
  "items_results env [] w = []"
| "items_results env ((p, ds) # its) w =
     bucket_results env ds w @
     (case bucket_exn env ds w of
        Some e \<Rightarrow> []
      | None \<Rightarrow> items_results env its (bucket_world env ds w))"

fun items_events :: "'w env \<Rightarrow> (int \<times> task_data list) list \<Rightarrow> 'w \<Rightarrow> log_event list" where
  "items_events env [] w = []"
| "items_events env ((p, ds) # its) w =
     bucket_events env p ds w @
     (case bucket_exn env ds w of
        Some e \<Rightarrow> []
      | None \<Rightarrow> items_events env its (bucket_world env ds w))"

fun items_ran :: "'w env \<Rightarrow> (int \<times> task_data list) list \<Rightarrow> 'w \<Rightarrow> nat" where
  "items_ran env [] w = 0"
| "items_ran env ((p, ds) # its) w =
     bucket_ran env ds w +
     (case bucket_exn env ds w of
        Some e \<Rightarrow> 0
      | None \<Rightarrow> items_ran env its (bucket_world env ds w))"

text \<open>Writing buckets back into the dictionary, and the order in which \<open>run\<close> walks it.\<close>

definition store_items :: "(int \<times> task_data list) list \<Rightarrow> (int, task_data list) alist \<Rightarrow> (int, task_data list) alist" where
  "store_items its q = fold (\<lambda>it. DAList.update (fst it) (snd it)) its q"

definition run_order :: "(int, task_data list) alist \<Rightarrow> (int \<times> task_data list) list" where
  "run_order q = sorted_reverse (DAList.impl_of q)"

text \<open>
  The calls of \<open>_execute\<close> as the log shows them: the priority and the command of each
  message \<open>Task priority: ..., command: ...\<close>, in the order logged.
\<close>

fun executed :: "log_event list \<Rightarrow> (int \<times> string) list" where
  "executed [] = []"
| "executed (Debug_task p c # es) = (p, c) # executed es"
| "executed (e # es) = executed es"

text \<open>
  The waiting tasks of a list of buckets, bucket after bucket and in the order of each
  bucket, each with the priority of its bucket and its command.
\<close>

definition pending :: "(int \<times> task_data list) list \<Rightarrow> (int \<times> string) list" where
  "pending its = concat (map (\<lambda>it. map (\<lambda>d. (fst it, command d)) (filter (\<lambda>d. state d = WAITING) (snd it))) its)"

section \<open>Properties\<close>

subsection \<open>Dictionary facts\<close>

lemma update_same: "DAList.lookup q k = Some v \<Longrightarrow> DAList.update k v q = q"
  by transfer (simp add: update_triv)

subsection \<open>The loops of \<open>run\<close>\<close>

lemma list_index_nat: "i < length b \<Longrightarrow> list_index b (int i) = Some i"
  by (simp add: list_index_def)

lemma execute_present:
  assumes "DAList.lookup (queue s) p = Some b" and "i < length b"
  shows "execute env p (int i) s w =
          (case execute_data env (b ! i) w of
             (Raised e, w') \<Rightarrow>
               (Raised e, s\<lparr>logged := logged s @ [Debug_task p (command (b ! i))]\<rparr>, w')
           | (Returned d', w') \<Rightarrow>
               (Returned (state d' \<noteq> ERROR),
                s\<lparr>queue := DAList.update p (b[i := d']) (queue s),
                  logged := logged s @ task_events p (b ! i) d'\<rparr>,
                w'))"
  using assms
  by (simp add: execute_def getitem_def list_index_nat log_to_def task_events_def Let_def
      split: prod.splits result.splits)

lemma run_commands_closed:
  assumes "DAList.lookup (queue s) p = Some (pre @ ds)"
  shows "run_commands env p (enumerate (length pre) ds) res cnt s w =
          (case bucket_exn env ds w of
             Some e \<Rightarrow> Raised e
           | None \<Rightarrow> Returned (res @ bucket_results env ds w, cnt + length (bucket_results env ds w)),
           s\<lparr>queue := DAList.update p (pre @ bucket_after env ds w) (queue s),
              logged := logged s @ bucket_events env p ds w\<rparr>,
           bucket_world env ds w)"
  using assms
proof (induction ds arbitrary: pre res cnt s w)
  case Nil
  then show ?case by (simp add: update_same)
next
  case (Cons d ds)
  show ?case
  proof (cases "state d = WAITING")
    case False
    have "DAList.lookup (queue s) p = Some ((pre @ [d]) @ ds)" using Cons.prems by simp
    from Cons.IH[OF this] False show ?thesis by (simp split: option.splits)
  next
    case True
    obtain r w' where ed: "execute_data env d w = (r, w')" by (cases "execute_data env d w")
    show ?thesis
    proof (cases r)
      case (Raised e)
      have "execute env p (int (length pre)) s w =
              (Raised e, s\<lparr>logged := logged s @ [Debug_task p (command d)]\<rparr>, w')"
        using execute_present[OF Cons.prems, of "length pre" env w] ed Raised by simp
      then show ?thesis using True ed Raised Cons.prems by (simp add: update_same)
    next
      case (Returned d')
      define s' where "s' = s\<lparr>queue := DAList.update p (pre @ d' # ds) (queue s),
              logged := logged s @ task_events p d d'\<rparr>"
      have ex: "execute env p (int (length pre)) s w = (Returned (state d' \<noteq> ERROR), s', w')"
        using execute_present[OF Cons.prems, of "length pre" env w] ed Returned
        by (simp add: s'_def)
      have "DAList.lookup (queue s') p = Some ((pre @ [d']) @ ds)"
        by (simp add: s'_def)
      from Cons.IH[OF this]
      show ?thesis using True ex ed Returned
        by (simp add: s'_def split: option.splits)
    qed
  qed
qed

lemma store_items_simps [simp]:
  "store_items [] q = q"
  "store_items ((p, ds) # its) q = store_items its (DAList.update p ds q)"
  by (simp_all add: store_items_def)

lemma store_same:
  "\<forall>it \<in> set its. DAList.lookup q (fst it) = Some (snd it) \<Longrightarrow> store_items its q = q"
  by (induction its) (auto simp add: update_same)

lemma run_items_closed:
  assumes "distinct (map fst its)"
    and "\<forall>it \<in> set its. DAList.lookup (queue s) (fst it) = Some (snd it)"
  shows "run_items env its res cnt s w =
          (case items_exn env its w of
             Some e \<Rightarrow> Raised e
           | None \<Rightarrow> Returned (res @ items_results env its w, cnt + length (items_results env its w)),
           s\<lparr>queue := store_items (items_after env its w) (queue s),
              logged := logged s @ items_events env its w\<rparr>,
           items_world env its w)"
  using assms
proof (induction its arbitrary: res cnt s w)
  case Nil
  then show ?case by simp
next
  case (Cons it its)
  obtain p ds where it: "it = (p, ds)" by (cases it)
  have l: "DAList.lookup (queue s) p = Some ([] @ ds)" using Cons.prems(2) it by simp
  define s' where "s' = s\<lparr>queue := DAList.update p (bucket_after env ds w) (queue s),
              logged := logged s @ bucket_events env p ds w\<rparr>"
  have rc: "run_commands env p (enumerate 0 ds) res cnt s w =
          (case bucket_exn env ds w of
             Some e \<Rightarrow> Raised e
           | None \<Rightarrow> Returned (res @ bucket_results env ds w, cnt + length (bucket_results env ds w)),
           s', bucket_world env ds w)"
    using run_commands_closed[OF l, of env res cnt w] by (simp add: s'_def)
  have d: "distinct (map fst its)" using Cons.prems(1) by simp
  have k: "\<forall>it' \<in> set its. DAList.lookup (queue s') (fst it') = Some (snd it')"
  proof
    fix it' assume m: "it' \<in> set its"
    then have "fst it' \<noteq> p" using Cons.prems(1) it by auto
    then show "DAList.lookup (queue s') (fst it') = Some (snd it')"
      using Cons.prems(2) m by (simp add: s'_def)
  qed
  show ?case
  proof (cases "bucket_exn env ds w")
    case (Some e)
    have "store_items its (queue s') = queue s'" using k by (rule store_same)
    then show ?thesis using rc Some by (simp add: it s'_def)
  next
    case None
    from Cons.IH[OF d k] show ?thesis
      using rc None by (simp add: it s'_def split: option.splits)
  qed
qed

subsection \<open>One bucket\<close>

lemma executed_append [simp]: "executed (xs @ ys) = executed xs @ executed ys"
  by (induction xs rule: executed.induct) simp_all

lemma execute_data_written:
  assumes "execute_data env d w = (Returned d', w')"
  shows "state d' \<noteq> WAITING" and "command d' = command d" and "log_data d' \<noteq> None"
  using assms
  by (auto simp add: execute_data_def Let_def case_prod_beta split: outcome.splits)

lemma execute_data_world: "snd (execute_data env d w) = snd (check_output env (command d) w)"
  by (simp add: execute_data_def Let_def case_prod_beta split: outcome.splits)

lemma execute_data_two_outcomes:
  "two_outcomes env \<Longrightarrow> \<exists>d'. fst (execute_data env d w) = Returned d'"
  by (cases "fst (check_output env (command d) w)")
     (auto simp add: two_outcomes_def execute_data_def Let_def case_prod_beta)

lemma length_bucket_after [simp]: "length (bucket_after env ds w) = length ds"
  by (induction ds arbitrary: w) (simp_all split: prod.splits result.splits)

lemma command_bucket_after [simp]: "map command (bucket_after env ds w) = map command ds"
  by (induction ds arbitrary: w) (simp_all add: execute_data_written split: prod.splits result.splits)

lemma bucket_after_kept:
  "i < length ds \<Longrightarrow> state (ds ! i) \<noteq> WAITING \<Longrightarrow> bucket_after env ds w ! i = ds ! i"
  by (induction ds arbitrary: w i) (auto simp add: nth_Cons split: nat.splits prod.splits result.splits)

lemma bucket_after_not_waiting:
  "bucket_exn env ds w = None \<Longrightarrow> d \<in> set (bucket_after env ds w) \<Longrightarrow> state d \<noteq> WAITING"
  by (induction ds arbitrary: w)
     (auto simp add: execute_data_written split: if_splits prod.splits result.splits)

lemma bucket_results_all:
  "bucket_exn env ds w = None \<Longrightarrow>
   list_all (\<lambda>b. b) (bucket_results env ds w) \<longleftrightarrow>
     (\<forall>i < length ds. state (ds ! i) = WAITING \<longrightarrow> state (bucket_after env ds w ! i) = SUCCESS)"
proof (induction ds arbitrary: w)
  case Nil
  then show ?case by simp
next
  case (Cons d ds)
  show ?case
  proof (cases "state d = WAITING")
    case False
    then show ?thesis using Cons by (simp add: All_less_Suc2)
  next
    case True
    obtain r w' where ed: "execute_data env d w = (r, w')" by (cases "execute_data env d w")
    then obtain d' where r: "r = Returned d'" using Cons.prems True by (cases r) simp_all
    have s: "state d' \<noteq> ERROR \<longleftrightarrow> state d' = SUCCESS"
      using execute_data_written(1)[of env d w d' w'] ed r by (cases "state d'") simp_all
    have "bucket_exn env ds w' = None" using Cons.prems True ed r by simp
    from Cons.IH[OF this] show ?thesis using True ed r s by (simp add: All_less_Suc2)
  qed
qed

lemma bucket_raised_waiting:
  "bucket_exn env ds w = Some e \<Longrightarrow>
   \<exists>i < length ds. state (ds ! i) = WAITING \<and> bucket_after env ds w ! i = ds ! i"
proof (induction ds arbitrary: w)
  case Nil
  then show ?case by simp
next
  case (Cons d ds)
  show ?case
  proof (cases "state d = WAITING")
    case False
    then have "bucket_exn env ds w = Some e" using Cons.prems by simp
    from Cons.IH[OF this] obtain i where "i < length ds" "state (ds ! i) = WAITING"
      "bucket_after env ds w ! i = ds ! i" by blast
    then have "Suc i < length (d # ds) \<and> state ((d # ds) ! Suc i) = WAITING \<and>
        bucket_after env (d # ds) w ! Suc i = (d # ds) ! Suc i"
      using False by simp
    then show ?thesis by blast
  next
    case True
    obtain r w' where ed: "execute_data env d w = (r, w')" by (cases "execute_data env d w")
    show ?thesis
    proof (cases r)
      case (Raised e')
      then have "0 < length (d # ds) \<and> state ((d # ds) ! 0) = WAITING \<and>
        bucket_after env (d # ds) w ! 0 = (d # ds) ! 0"
        using True ed by simp
      then show ?thesis by blast
    next
      case (Returned d')
      then have "bucket_exn env ds w' = Some e" using Cons.prems True ed by simp
      from Cons.IH[OF this] obtain i where "i < length ds" "state (ds ! i) = WAITING"
        "bucket_after env ds w' ! i = ds ! i" by blast
      then have "Suc i < length (d # ds) \<and> state ((d # ds) ! Suc i) = WAITING \<and>
        bucket_after env (d # ds) w ! Suc i = (d # ds) ! Suc i"
        using True ed Returned by simp
      then show ?thesis by blast
    qed
  qed
qed

lemma bucket_idle:
  assumes "\<forall>d \<in> set ds. state d \<noteq> WAITING"
  shows "bucket_after env ds w = ds" and "bucket_world env ds w = w"
    and "bucket_results env ds w = []" and "bucket_events env p ds w = []"
    and "bucket_exn env ds w = None" and "bucket_ran env ds w = 0"
  using assms by (induction ds) simp_all

lemma bucket_two_outcomes: "two_outcomes env \<Longrightarrow> bucket_exn env ds w = None"
proof (induction ds arbitrary: w)
  case Nil
  then show ?case by simp
next
  case (Cons d ds)
  obtain d' where "fst (execute_data env d w) = Returned d'"
    using execute_data_two_outcomes[OF Cons.prems] by blast
  then show ?case using Cons by (cases "execute_data env d w") simp
qed

lemma executed_task_events [simp]: "executed (task_events p d d') = [(p, command d)]"
  by (simp add: task_events_def)

lemma executed_bucket_events:
  "executed (bucket_events env p ds w) =
     take (bucket_ran env ds w) (map (\<lambda>d. (p, command d)) (filter (\<lambda>d. state d = WAITING) ds))"
  by (induction ds arbitrary: w) (simp_all split: prod.splits result.splits)

lemma bucket_world_fold:
  "bucket_world env ds w =
     foldl (\<lambda>w c. snd (check_output env c w)) w
       (take (bucket_ran env ds w) (map command (filter (\<lambda>d. state d = WAITING) ds)))"
proof (induction ds arbitrary: w)
  case Nil
  then show ?case by simp
next
  case (Cons d ds)
  show ?case
  proof (cases "state d = WAITING")
    case False
    then show ?thesis using Cons by simp
  next
    case True
    obtain r w' where ed: "execute_data env d w = (r, w')" by (cases "execute_data env d w")
    then have w': "w' = snd (check_output env (command d) w)"
      using execute_data_world[of env d w] by simp
    show ?thesis using True ed w' Cons by (cases r) simp_all
  qed
qed

lemma bucket_ran_all:
  "bucket_exn env ds w = None \<Longrightarrow> bucket_ran env ds w = length (filter (\<lambda>d. state d = WAITING) ds)"
  by (induction ds arbitrary: w) (simp_all split: prod.splits result.splits if_splits)

lemma bucket_ran_le: "bucket_ran env ds w \<le> length (filter (\<lambda>d. state d = WAITING) ds)"
  by (induction ds arbitrary: w) (simp_all split: prod.splits result.splits)

lemma bucket_after_executed:
  "bucket_exn env ds w = None \<Longrightarrow> i < length ds \<Longrightarrow> state (ds ! i) = WAITING \<Longrightarrow>
   \<exists>wi. fst (execute_data env (ds ! i) wi) = Returned (bucket_after env ds w ! i)"
proof (induction ds arbitrary: w i)
  case Nil
  then show ?case by simp
next
  case (Cons d ds)
  show ?case
  proof (cases i)
    case 0
    then have "fst (execute_data env ((d # ds) ! i) w) = Returned (bucket_after env (d # ds) w ! i)"
      using Cons.prems by (cases "execute_data env d w") (simp split: result.splits)
    then show ?thesis by blast
  next
    case (Suc j)
    then have j: "j < length ds" and wj: "state (ds ! j) = WAITING" using Cons.prems by simp_all
    show ?thesis
    proof (cases "state d = WAITING")
      case False
      then have "bucket_exn env ds w = None" using Cons.prems by simp
      from Cons.IH[OF this j wj] show ?thesis using Suc False by simp
    next
      case True
      obtain r w' where ed: "execute_data env d w = (r, w')" by (cases "execute_data env d w")
      then obtain d' where r: "r = Returned d'" using Cons.prems True by (cases r) simp_all
      have "bucket_exn env ds w' = None" using Cons.prems True ed r by simp
      from Cons.IH[OF this j wj] show ?thesis using Suc True ed r by simp
    qed
  qed
qed

subsection \<open>The list of buckets\<close>

lemma pending_simps [simp]:
  "pending [] = []"
  "pending ((p, ds) # its) = map (\<lambda>d. (p, command d)) (filter (\<lambda>d. state d = WAITING) ds) @ pending its"
  by (simp_all add: pending_def)

lemma fst_items_after [simp]: "map fst (items_after env its w) = map fst its"
  by (induction its arbitrary: w) (auto split: option.splits)

lemma executed_items_events:
  "executed (items_events env its w) = take (items_ran env its w) (pending its)"
proof (induction its arbitrary: w)
  case Nil
  then show ?case by simp
next
  case (Cons it its)
  obtain p ds where it: "it = (p, ds)" by (cases it)
  show ?case
  proof (cases "bucket_exn env ds w")
    case None
    then show ?thesis
      using Cons by (simp add: it executed_bucket_events bucket_ran_all)
  next
    case (Some e)
    then show ?thesis
      using bucket_ran_le[of env ds w] by (simp add: it executed_bucket_events)
  qed
qed

lemma items_world_fold:
  "items_world env its w =
     foldl (\<lambda>w c. snd (check_output env c w)) w (map snd (take (items_ran env its w) (pending its)))"
proof (induction its arbitrary: w)
  case Nil
  then show ?case by simp
next
  case (Cons it its)
  obtain p ds where it: "it = (p, ds)" by (cases it)
  show ?case
  proof (cases "bucket_exn env ds w")
    case None
    then show ?thesis
      using Cons bucket_world_fold[of env ds w]
      by (simp add: it bucket_ran_all comp_def)
  next
    case (Some e)
    then show ?thesis
      using bucket_ran_le[of env ds w] bucket_world_fold[of env ds w]
      by (simp add: it take_map comp_def)
  qed
qed

lemma items_ran_all: "items_exn env its w = None \<Longrightarrow> items_ran env its w = length (pending its)"
  by (induction its arbitrary: w) (auto simp add: bucket_ran_all split: option.splits)

lemma items_idle:
  assumes "\<forall>it \<in> set its. \<forall>d \<in> set (snd it). state d \<noteq> WAITING"
  shows "items_after env its w = its" and "items_world env its w = w"
    and "items_results env its w = []" and "items_events env its w = []"
    and "items_exn env its w = None"
  using assms by (induction its) (auto simp add: bucket_idle)

lemma items_two_outcomes: "two_outcomes env \<Longrightarrow> items_exn env its w = None"
  by (induction its arbitrary: w) (auto simp add: bucket_two_outcomes)

lemma items_after_bucket:
  assumes "items_exn env its w = None" and "distinct (map fst its)" and "(p, ds) \<in> set its"
  shows "\<exists>wp. map_of (items_after env its w) p = Some (bucket_after env ds wp) \<and> bucket_exn env ds wp = None"
  using assms
proof (induction its arbitrary: w)
  case Nil
  then show ?case by simp
next
  case (Cons it its)
  obtain p' ds' where it: "it = (p', ds')" by (cases it)
  have n: "bucket_exn env ds' w = None" and r: "items_exn env its (bucket_world env ds' w) = None"
    using Cons.prems(1) it by (auto split: option.splits)
  show ?case
  proof (cases "p' = p")
    case True
    then have "ds' = ds" using Cons.prems it by (auto simp add: rev_image_eqI)
    then show ?thesis using True it n by auto
  next
    case False
    then have "(p, ds) \<in> set its" using Cons.prems it by auto
    moreover have "distinct (map fst its)" using Cons.prems by simp
    ultimately obtain wp where "map_of (items_after env its (bucket_world env ds' w)) p = Some (bucket_after env ds wp)"
      and "bucket_exn env ds wp = None"
      using Cons.IH[OF r] by blast
    then show ?thesis using False it n by auto
  qed
qed

lemma items_after_kept:
  assumes "distinct (map fst its)" and "(p, ds) \<in> set its"
  shows "\<exists>ds'. map_of (items_after env its w) p = Some ds' \<and> length ds' = length ds \<and>
           map command ds' = map command ds \<and>
           (\<forall>i < length ds. state (ds ! i) \<noteq> WAITING \<longrightarrow> ds' ! i = ds ! i)"
  using assms
proof (induction its arbitrary: w)
  case Nil
  then show ?case by simp
next
  case (Cons it its)
  obtain p' ds' where it: "it = (p', ds')" by (cases it)
  show ?case
  proof (cases "p' = p")
    case True
    then have "ds' = ds" using Cons.prems it by (auto simp add: rev_image_eqI)
    then show ?thesis using True it by (simp add: bucket_after_kept)
  next
    case False
    then have m: "(p, ds) \<in> set its" using Cons.prems it by auto
    have d: "distinct (map fst its)" using Cons.prems by simp
    show ?thesis
    proof (cases "bucket_exn env ds' w")
      case None
      then show ?thesis using Cons.IH[OF d m, of "bucket_world env ds' w"] False it by simp
    next
      case (Some e)
      have "map_of its p = Some ds" using d m by simp
      then show ?thesis using Some False it by simp
    qed
  qed
qed

lemma items_results_all:
  assumes "items_exn env its w = None" and "distinct (map fst its)"
  shows "list_all (\<lambda>b. b) (items_results env its w) \<longleftrightarrow>
     (\<forall>it \<in> set its. \<forall>i < length (snd it). state (snd it ! i) = WAITING \<longrightarrow>
        (\<exists>ds'. map_of (items_after env its w) (fst it) = Some ds' \<and> state (ds' ! i) = SUCCESS))"
  using assms
proof (induction its arbitrary: w)
  case Nil
  then show ?case by simp
next
  case (Cons it its)
  obtain p ds where it: "it = (p, ds)" by (cases it)
  have b: "bucket_exn env ds w = None" and r: "items_exn env its (bucket_world env ds w) = None"
    using Cons.prems(1) it by (auto split: option.splits)
  have d: "distinct (map fst its)" and n: "\<forall>it' \<in> set its. fst it' \<noteq> p"
    using Cons.prems it by auto
  have "(\<forall>it' \<in> set its. \<forall>i < length (snd it'). state (snd it' ! i) = WAITING \<longrightarrow>
          (\<exists>ds'. map_of (items_after env (it # its) w) (fst it') = Some ds' \<and> state (ds' ! i) = SUCCESS))
      \<longleftrightarrow> list_all (\<lambda>b. b) (items_results env its (bucket_world env ds w))"
    using n b by (simp add: Cons.IH[OF r d] it)
  then show ?case
    using b by (simp add: it bucket_results_all)
qed

lemma items_raised_waiting:
  assumes "items_exn env its w = Some e" and "distinct (map fst its)"
  shows "\<exists>it \<in> set its. \<exists>i < length (snd it). state (snd it ! i) = WAITING \<and>
           (\<exists>ds'. map_of (items_after env its w) (fst it) = Some ds' \<and> ds' ! i = snd it ! i)"
  using assms
proof (induction its arbitrary: w)
  case Nil
  then show ?case by simp
next
  case (Cons it its)
  obtain p ds where it: "it = (p, ds)" by (cases it)
  show ?case
  proof (cases "bucket_exn env ds w")
    case (Some e')
    from bucket_raised_waiting[OF this] obtain i where "i < length ds" "state (ds ! i) = WAITING"
      "bucket_after env ds w ! i = ds ! i" by blast
    then have "i < length (snd it) \<and> state (snd it ! i) = WAITING \<and>
           (\<exists>ds'. map_of (items_after env (it # its) w) (fst it) = Some ds' \<and> ds' ! i = snd it ! i)"
      by (simp add: it)
    then show ?thesis by (meson list.set_intros(1))
  next
    case None
    then have r: "items_exn env its (bucket_world env ds w) = Some e" using Cons.prems(1) it by simp
    have d: "distinct (map fst its)" and n: "\<forall>it' \<in> set its. fst it' \<noteq> p"
      using Cons.prems it by auto
    from Cons.IH[OF r d] obtain it' i where m: "it' \<in> set its" and "i < length (snd it')"
      "state (snd it' ! i) = WAITING"
      "\<exists>ds'. map_of (items_after env its (bucket_world env ds w)) (fst it') = Some ds' \<and> ds' ! i = snd it' ! i"
      by blast
    then have "i < length (snd it') \<and> state (snd it' ! i) = WAITING \<and>
           (\<exists>ds'. map_of (items_after env (it # its) w) (fst it') = Some ds' \<and> ds' ! i = snd it' ! i)"
      using n None by (simp add: it)
    then show ?thesis using m by (meson list.set_intros(2))
  qed
qed

lemma items_after_not_waiting:
  "items_exn env its w = None \<Longrightarrow> (p, ds') \<in> set (items_after env its w) \<Longrightarrow> d \<in> set ds' \<Longrightarrow>
   state d \<noteq> WAITING"
  by (induction its arbitrary: w) (auto simp add: bucket_after_not_waiting split: option.splits)

lemma map_of_items_after_None:
  "map_of (items_after env its w) k = None \<longleftrightarrow> k \<notin> fst ` set its"
  using fst_items_after[of env its w] by (metis map_of_eq_None_iff set_map)

lemma store_lookup:
  "distinct (map fst its) \<Longrightarrow>
   DAList.lookup (store_items its q) k = (case map_of its k of Some v \<Rightarrow> Some v | None \<Rightarrow> DAList.lookup q k)"
proof (induction its arbitrary: q)
  case Nil
  then show ?case by simp
next
  case (Cons it its)
  obtain p ds where it: "it = (p, ds)" by (cases it)
  have "map_of its p = None" using Cons.prems it by (simp add: map_of_eq_None_iff)
  then show ?case using Cons it by (auto simp add: DAList.lookup_update split: option.splits)
qed

lemma store_keys:
  "\<forall>it \<in> set its. fst it \<in> fst ` set (DAList.impl_of q) \<Longrightarrow>
   map fst (DAList.impl_of (store_items its q)) = map fst (DAList.impl_of q)"
proof (induction its arbitrary: q)
  case Nil
  then show ?case by simp
next
  case (Cons it its)
  obtain p ds where it: "it = (p, ds)" by (cases it)
  have k: "map fst (DAList.impl_of (DAList.update p ds q)) = map fst (DAList.impl_of q)"
    using Cons.prems it by (simp add: DAList.update.rep_eq update_keys)
  then have "\<forall>it \<in> set its. fst it \<in> fst ` set (DAList.impl_of (DAList.update p ds q))"
    using Cons.prems by (metis list.set_intros(2) set_map)
  from Cons.IH[OF this] show ?case using k it by simp
qed

subsection \<open>The order of a pass and what it leaves\<close>

lemma sorted_reverse_keys: "distinct (map fst xs) \<Longrightarrow> distinct (map fst (sorted_reverse xs))"
  by (simp add: sorted_reverse_def distinct_map)

lemma set_sorted_reverse [simp]: "set (sorted_reverse xs) = set xs"
  by (simp add: sorted_reverse_def)

lemma lookup_impl_of: "it \<in> set (DAList.impl_of q) \<Longrightarrow> DAList.lookup q (fst it) = Some (snd it)"
  by (cases it) (simp add: DAList.lookup.rep_eq)

lemma distinct_run_order: "distinct (map fst (run_order q))"
  by (simp add: run_order_def sorted_reverse_keys)

lemma set_run_order [simp]: "set (run_order q) = set (DAList.impl_of q)"
  by (simp add: run_order_def)

lemma in_run_order: "DAList.lookup q p = Some ds \<Longrightarrow> (p, ds) \<in> set (run_order q)"
  by (simp add: DAList.lookup.rep_eq)

lemma run_order_lookup: "(p, ds) \<in> set (run_order q) \<longleftrightarrow> DAList.lookup q p = Some ds"
  by (simp add: DAList.lookup.rep_eq)

lemma map_of_run_order: "map_of (run_order q) p = DAList.lookup q p"
proof (cases "DAList.lookup q p")
  case None
  then have "p \<notin> fst ` set (DAList.impl_of q)"
    by (simp add: map_of_eq_None_iff DAList.lookup.rep_eq)
  then have "map_of (run_order q) p = None"
    by (simp add: map_of_eq_None_iff)
  then show ?thesis using None by simp
next
  case (Some ds)
  then have "(p, ds) \<in> set (run_order q)" by (rule in_run_order)
  then show ?thesis using Some distinct_run_order[of q] by simp
qed

lemma run_order_sorted: "sorted_wrt (\<lambda>a b. fst b \<le> fst a) (run_order q)"
proof -
  have "sorted (map fst (sort_key fst (DAList.impl_of q)))" by (rule sorted_sort_key)
  then have "sorted_wrt (\<lambda>a b. fst a \<le> fst b) (sort_key fst (DAList.impl_of q))"
    by (simp add: sorted_map)
  then show ?thesis
    by (simp add: run_order_def sorted_reverse_def sorted_wrt_rev)
qed

lemma pending_priorities: "e \<in> set (pending its) \<Longrightarrow> fst e \<in> fst ` set its"
  by (force simp add: pending_def)

lemma pending_sorted:
  "sorted_wrt (\<lambda>a b. fst b \<le> fst a) its \<Longrightarrow> sorted_wrt (\<lambda>a b. fst b \<le> fst a) (pending its)"
proof (induction its)
  case Nil
  then show ?case by simp
next
  case (Cons it its)
  obtain p ds where it: "it = (p, ds)" by (cases it)
  have r: "\<forall>e \<in> set (pending its). fst e \<le> p"
  proof
    fix e assume "e \<in> set (pending its)"
    then have "fst e \<in> fst ` set its" by (rule pending_priorities)
    then show "fst e \<le> p" using Cons.prems it by auto
  qed
  have "sorted_wrt (\<lambda>a b. fst b \<le> fst a) (map (\<lambda>d. (p, command d)) (filter (\<lambda>d. state d = WAITING) ds))"
    by (simp add: sorted_wrt_map sorted_wrt_true)
  then show ?case using Cons r it by (auto simp add: sorted_wrt_append)
qed

lemma pending_of_priority:
  assumes "distinct (map fst its)"
  shows "filter (\<lambda>e. fst e = p) (pending its) =
     (case map_of its p of None \<Rightarrow> [] | Some ds \<Rightarrow> map (\<lambda>d. (p, command d)) (filter (\<lambda>d. state d = WAITING) ds))"
  using assms
proof (induction its)
  case Nil
  then show ?case by simp
next
  case (Cons it its)
  obtain p' ds' where it: "it = (p', ds')" by (cases it)
  show ?case
  proof (cases "p' = p")
    case True
    then have "map_of its p = None" using Cons.prems it by (simp add: map_of_eq_None_iff)
    then show ?thesis using Cons it True by (simp add: filter_map comp_def)
  next
    case False
    then show ?thesis using Cons it by (simp add: filter_map comp_def)
  qed
qed

lemma run_closed:
  "run env auto_clear s w =
     (case items_exn env (run_order (queue s)) w of
        Some e \<Rightarrow>
          (Raised e,
           s\<lparr>queue := store_items (items_after env (run_order (queue s)) w) (queue s),
             logged := logged s @ [Info_start] @ items_events env (run_order (queue s)) w\<rparr>,
           items_world env (run_order (queue s)) w)
      | None \<Rightarrow>
          (Returned (list_all (\<lambda>b. b) (items_results env (run_order (queue s)) w)),
           (if auto_clear then clear_queue else (\<lambda>s. s))
             (s\<lparr>queue := store_items (items_after env (run_order (queue s)) w) (queue s),
                logged := logged s @ [Info_start] @ items_events env (run_order (queue s)) w @
                  [Info_processed (length (items_results env (run_order (queue s)) w))
                     (time env (items_world env (run_order (queue s)) w) - time env w)]\<rparr>),
           items_world env (run_order (queue s)) w))"
proof -
  let ?s1 = "log_to Info_start s"
  have d: "distinct (map fst (run_order (queue s)))"
    by (rule distinct_run_order)
  have "\<forall>it \<in> set (run_order (queue s)). DAList.lookup (queue ?s1) (fst it) = Some (snd it)"
    by (simp add: log_to_def lookup_impl_of)
  from run_items_closed[OF d this, of env "[]" 0 w] show ?thesis
    by (simp add: run_def run_order_def log_to_def Let_def split: option.splits)
qed

lemma run_returns:
  "fst (run env auto_clear s w) =
     (case items_exn env (run_order (queue s)) w of
        Some e \<Rightarrow> Raised e
      | None \<Rightarrow> Returned (list_all (\<lambda>b. b) (items_results env (run_order (queue s)) w)))"
  by (simp add: run_closed split: option.splits)

lemma run_returned:
  "fst (run env auto_clear s w) = Returned b \<Longrightarrow> items_exn env (run_order (queue s)) w = None"
  by (simp add: run_returns split: option.splits)

lemma run_raised:
  "fst (run env auto_clear s w) = Raised e \<Longrightarrow> items_exn env (run_order (queue s)) w = Some e"
  by (simp add: run_returns split: option.splits)

lemma run_two_outcomes:
  "two_outcomes env \<Longrightarrow> \<exists>b. fst (run env auto_clear s w) = Returned b"
  by (simp add: run_returns items_two_outcomes)

lemma run_world: "snd (snd (run env auto_clear s w)) = items_world env (run_order (queue s)) w"
  by (simp add: run_closed split: option.splits)

lemma run_executed:
  "executed (logged (fst (snd (run env auto_clear s w)))) =
     executed (logged s) @ take (items_ran env (run_order (queue s)) w) (pending (run_order (queue s)))"
  by (simp add: run_closed clear_queue_def log_to_def executed_items_events split: option.splits)

lemma run_queue_clear: "fst (run env True s w) = Returned b \<Longrightarrow> queue (fst (snd (run env True s w))) = DAList.empty"
  by (simp add: run_closed clear_queue_def split: option.splits)

lemma run_queue_keep:
  "queue (fst (snd (run env False s w))) = store_items (items_after env (run_order (queue s)) w) (queue s)"
  by (simp add: run_closed split: option.splits)

lemma run_lookup:
  "DAList.lookup (queue (fst (snd (run env False s w)))) k = map_of (items_after env (run_order (queue s)) w) k"
proof (cases "map_of (items_after env (run_order (queue s)) w) k")
  case None
  then have "k \<notin> fst ` set (DAList.impl_of (queue s))"
    by (simp add: map_of_items_after_None)
  then have "DAList.lookup (queue s) k = None"
    by (simp add: DAList.lookup.rep_eq map_of_eq_None_iff)
  then show ?thesis using None
    by (simp add: run_queue_keep store_lookup distinct_run_order)
next
  case (Some v)
  then show ?thesis
    by (simp add: run_queue_keep store_lookup distinct_run_order)
qed

lemma run_keys:
  "map fst (DAList.impl_of (queue (fst (snd (run env False s w))))) = map fst (DAList.impl_of (queue s))"
proof -
  have "\<forall>it \<in> set (items_after env (run_order (queue s)) w). fst it \<in> fst ` set (DAList.impl_of (queue s))"
    using fst_items_after[of env "run_order (queue s)" w] set_run_order[of "queue s"]
    by (metis image_eqI list.set_map)
  then show ?thesis by (simp add: run_queue_keep store_keys)
qed

lemma run_bucket:
  assumes "DAList.lookup (queue s) p = Some ds" and "fst (run env False s w) = Returned b"
  shows "\<exists>wp. DAList.lookup (queue (fst (snd (run env False s w)))) p = Some (bucket_after env ds wp) \<and>
           bucket_exn env ds wp = None"
proof -
  have m: "(p, ds) \<in> set (run_order (queue s))"
    using assms(1) by (rule in_run_order)
  have n: "items_exn env (run_order (queue s)) w = None"
    using assms(2) by (rule run_returned)
  from items_after_bucket[OF n distinct_run_order m] show ?thesis
    by (simp add: run_lookup)
qed

lemma run_kept:
  assumes "DAList.lookup (queue s) p = Some ds"
  shows "\<exists>ds'. DAList.lookup (queue (fst (snd (run env False s w)))) p = Some ds' \<and> length ds' = length ds \<and>
           map command ds' = map command ds \<and>
           (\<forall>i < length ds. state (ds ! i) \<noteq> WAITING \<longrightarrow> ds' ! i = ds ! i)"
proof -
  have m: "(p, ds) \<in> set (run_order (queue s))"
    using assms by (rule in_run_order)
  from items_after_kept[OF distinct_run_order m] show ?thesis
    by (simp add: run_lookup)
qed

lemma run_result_iff:
  assumes "fst (run env False s w) = Returned b"
  shows "b \<longleftrightarrow>
     (\<forall>p ds. DAList.lookup (queue s) p = Some ds \<longrightarrow>
        (\<forall>i < length ds. state (ds ! i) = WAITING \<longrightarrow>
           (\<exists>ds'. DAList.lookup (queue (fst (snd (run env False s w)))) p = Some ds' \<and> state (ds' ! i) = SUCCESS)))"
proof -
  have n: "items_exn env (run_order (queue s)) w = None"
    using assms by (rule run_returned)
  have "b = list_all (\<lambda>b. b) (items_results env (run_order (queue s)) w)"
    using assms n by (simp add: run_returns)
  then show ?thesis
    by (simp add: items_results_all[OF n distinct_run_order] run_lookup Ball_def run_order_lookup[symmetric])
qed

lemma run_raised_waiting:
  assumes "fst (run env False s w) = Raised e"
  shows "\<exists>p ds i. DAList.lookup (queue s) p = Some ds \<and> i < length ds \<and> state (ds ! i) = WAITING \<and>
           (\<exists>ds'. DAList.lookup (queue (fst (snd (run env False s w)))) p = Some ds' \<and> ds' ! i = ds ! i)"
proof -
  have n: "items_exn env (run_order (queue s)) w = Some e"
    using assms by (rule run_raised)
  from items_raised_waiting[OF n distinct_run_order]
  obtain it i where m: "it \<in> set (run_order (queue s))" and i: "i < length (snd it)"
    and w: "state (snd it ! i) = WAITING"
    and a: "\<exists>ds'. map_of (items_after env (run_order (queue s)) w) (fst it) = Some ds' \<and> ds' ! i = snd it ! i"
    by blast
  have "DAList.lookup (queue s) (fst it) = Some (snd it)"
    using m by (simp add: lookup_impl_of)
  then show ?thesis using i w a by (metis run_lookup)
qed

lemma run_idle:
  assumes "\<forall>p ds. DAList.lookup (queue s) p = Some ds \<longrightarrow> (\<forall>d \<in> set ds. state d \<noteq> WAITING)"
  shows "run env False s w = (Returned True, s\<lparr>logged := logged s @ [Info_start, Info_processed 0 0]\<rparr>, w)"
proof -
  have i: "\<forall>it \<in> set (run_order (queue s)). \<forall>d \<in> set (snd it). state d \<noteq> WAITING"
    using assms by (auto simp add: DAList.lookup.rep_eq)
  have "store_items (run_order (queue s)) (queue s) = queue s"
    by (rule store_same) (simp add: lookup_impl_of)
  then show ?thesis
    by (simp add: run_closed items_idle[OF i])
qed

lemma run_leaves_none_waiting:
  assumes "fst (run env False s w) = Returned b"
    and "DAList.lookup (queue (fst (snd (run env False s w)))) p = Some ds'"
  shows "\<forall>d \<in> set ds'. state d \<noteq> WAITING"
proof -
  have n: "items_exn env (run_order (queue s)) w = None"
    using assms(1) by (rule run_returned)
  have "map_of (items_after env (run_order (queue s)) w) p = Some ds'"
    using assms(2) by (simp add: run_lookup)
  then have m: "(p, ds') \<in> set (items_after env (run_order (queue s)) w)"
    by (rule map_of_SomeD)
  show ?thesis
  proof
    fix d assume "d \<in> set ds'"
    with n m show "state d \<noteq> WAITING" by (rule items_after_not_waiting)
  qed
qed

subsection \<open>Evaluation\<close>

text \<open>The equations that compute the methods on the example values.\<close>

lemmas eval_defs = init_def new_task_def add_task_def getitem_def empty_pq_def log_to_def waiting_task_def
      DAList.update.rep_eq DAList.empty.rep_eq run_def sorted_reverse_def execute_def execute_data_def
      list_index_def stub_env_def Let_def clear_queue_def

subsection \<open>Admission\<close>

text \<open>
  Claim C3. A task with a command and a priority \<open>p\<close>: when \<open>1 \<le> p \<le> 10\<close>, \<open>add_task\<close>
  returns \<open>True\<close> and the queue is the old one with a new task (state \<open>WAITING\<close>, no
  output, elapsed time 0) appended to the bucket of \<open>p\<close>, a bucket that was absent being
  created by the update; when \<open>p < 1\<close> or \<open>p > 10\<close>, it returns \<open>False\<close> and the queue is
  the old one.
\<close>

theorem add_task_priority_range:
  assumes "task_priority task = Some p" and "task_command task = Some c"
  shows "(1 \<le> p \<and> p \<le> 10 \<longrightarrow>
            fst (add_task task s) = True \<and>
            queue (snd (add_task task s)) =
              DAList.update p
                ((case DAList.lookup (queue s) p of None \<Rightarrow> [] | Some bucket \<Rightarrow> bucket) @
                 [\<lparr>command = c, state = WAITING, log_data = None, time_processing = 0\<rparr>])
                (queue s)) \<and>
         (p < 1 \<or> 10 < p \<longrightarrow>
            fst (add_task task s) = False \<and> queue (snd (add_task task s)) = queue s)"
  using assms
  by (auto simp add: add_task_def getitem_def log_to_def split: option.splits)

theorem add_task_priority_range_witness:
  "fst (add_task (new_task 5 ''dir'') empty_pq) = True \<and>
   queue (snd (add_task (new_task 5 ''dir'') empty_pq)) = DAList.update 5 [waiting_task ''dir''] DAList.empty \<and>
   fst (add_task (new_task 1 ''dir'') empty_pq) = True \<and>
   fst (add_task (new_task 10 ''dir'') empty_pq) = True \<and>
   fst (add_task (new_task 0 ''dir'') empty_pq) = False \<and>
   queue (snd (add_task (new_task 0 ''dir'') empty_pq)) = DAList.empty \<and>
   fst (add_task (new_task 11 ''dir'') empty_pq) = False \<and>
   queue (snd (add_task (new_task 11 ''dir'') empty_pq)) = DAList.empty"
  using add_task_priority_range [of "new_task 5 ''dir''" 5 "''dir''" empty_pq]
    add_task_priority_range [of "new_task 1 ''dir''" 1 "''dir''" empty_pq]
    add_task_priority_range [of "new_task 10 ''dir''" 10 "''dir''" empty_pq]
    add_task_priority_range [of "new_task 0 ''dir''" 0 "''dir''" empty_pq]
    add_task_priority_range [of "new_task 11 ''dir''" 11 "''dir''" empty_pq]
  by (simp add: new_task_def waiting_task_def empty_pq_def)

text \<open>
  Claim C6, as stated, fails: \<open>add_task\<close> never looks at the text of the command, and
  the task \<open>{"command": "", "priority": 5}\<close> is accepted into the empty queue.
\<close>

theorem add_task_empty_command_counterexample:
  "\<not> (fst (add_task (new_task 5 []) empty_pq) = False \<and>
      queue (snd (add_task (new_task 5 []) empty_pq)) = queue empty_pq)"
  by (simp add: add_task_def new_task_def getitem_def empty_pq_def)

text \<open>
  Claim C6, amended. For a task whose command is the empty string, \<open>add_task\<close> returns
  \<open>True\<close> exactly when the priority is present and within \<open>1..10\<close>, and then the task,
  with its empty command and state \<open>WAITING\<close>, is appended to the bucket of its priority;
  otherwise the queue is the old one.
\<close>

theorem add_task_empty_command:
  assumes "task_command task = Some []"
  shows "fst (add_task task s) = (case task_priority task of None \<Rightarrow> False | Some p \<Rightarrow> 1 \<le> p \<and> p \<le> 10) \<and>
         (case task_priority task of
            None \<Rightarrow> queue (snd (add_task task s)) = queue s
          | Some p \<Rightarrow>
              if 1 \<le> p \<and> p \<le> 10
              then DAList.lookup (queue (snd (add_task task s))) p =
                     Some ((case DAList.lookup (queue s) p of None \<Rightarrow> [] | Some bucket \<Rightarrow> bucket) @
                           [\<lparr>command = [], state = WAITING, log_data = None, time_processing = 0\<rparr>])
              else queue (snd (add_task task s)) = queue s)"
  using assms
  by (auto simp add: add_task_def getitem_def log_to_def split: option.splits)

theorem add_task_empty_command_witness:
  "fst (add_task (new_task 5 []) empty_pq) = True \<and>
   DAList.lookup (queue (snd (add_task (new_task 5 []) empty_pq))) 5 = Some [waiting_task []] \<and>
   fst (add_task (new_task 0 []) empty_pq) = False \<and>
   queue (snd (add_task (new_task 0 []) empty_pq)) = DAList.empty"
  using add_task_empty_command [of "new_task 5 []" empty_pq]
    add_task_empty_command [of "new_task 0 []" empty_pq]
  by (simp add: new_task_def waiting_task_def empty_pq_def)

text \<open>
  Claim C7. A task dictionary without the key \<open>command\<close> or without the key \<open>priority\<close>:
  \<open>add_task\<close> returns \<open>False\<close> (it returns, no exception leaves it), the queue is the old
  one, and exactly one message went to the logger, at level error.
\<close>

theorem add_task_missing_key:
  assumes "task_command task = None \<or> task_priority task = None"
  shows "fst (add_task task s) = False \<and>
         queue (snd (add_task task s)) = queue s \<and>
         (logged (snd (add_task task s)) = logged s @ [Error_keys] \<or>
          (\<exists>p. logged (snd (add_task task s)) = logged s @ [Error_priority p]))"
  using assms
  by (auto simp add: add_task_def log_to_def split: option.splits)

theorem add_task_missing_key_witness:
  "fst (add_task \<lparr>task_priority = Some 5, task_command = None\<rparr> empty_pq) = False \<and>
   queue (snd (add_task \<lparr>task_priority = Some 5, task_command = None\<rparr> empty_pq)) = DAList.empty \<and>
   logged (snd (add_task \<lparr>task_priority = Some 5, task_command = None\<rparr> empty_pq)) = [Error_keys] \<and>
   fst (add_task \<lparr>task_priority = None, task_command = Some ''dir''\<rparr> empty_pq) = False \<and>
   queue (snd (add_task \<lparr>task_priority = None, task_command = Some ''dir''\<rparr> empty_pq)) = DAList.empty \<and>
   logged (snd (add_task \<lparr>task_priority = None, task_command = Some ''dir''\<rparr> empty_pq)) = [Error_keys]"
  using add_task_missing_key [of "\<lparr>task_priority = Some 5, task_command = None\<rparr>" empty_pq]
    add_task_missing_key [of "\<lparr>task_priority = None, task_command = Some ''dir''\<rparr>" empty_pq]
  by (simp add: empty_pq_def add_task_def log_to_def)

subsection \<open>The execution step\<close>

text \<open>
  Claim C4, as stated, fails in one part: the elapsed time is the difference of two
  readings of \<open>time.time()\<close>, and it is negative when the clock was set back between
  them. Here the task succeeds and the time recorded for it is \<open>-1\<close>.
\<close>

theorem execute_elapsed_counterexample:
  "fst (execute backward_env 5 0 (init [new_task 5 ''dir'']) []) = Returned True \<and>
   DAList.lookup (queue (fst (snd (execute backward_env 5 0 (init [new_task 5 ''dir'']) [])))) 5 =
     Some [\<lparr>command = ''dir'', state = SUCCESS, log_data = Some ''OK'', time_processing = - 1\<rparr>] \<and>
   \<not> 0 \<le> time_processing \<lparr>command = ''dir'', state = SUCCESS, log_data = Some ''OK'', time_processing = - 1\<rparr>"
  by (simp add: backward_env_def eval_defs)

text \<open>
  Claim C4, amended. For a task present at \<open>(p, i)\<close>, \<open>i\<close> a Python index into the bucket
  of \<open>p\<close>: \<open>_execute\<close> returns (no exception leaves it), true when the runner returned
  output and false when it raised \<open>CalledProcessError\<close>; the task at that position then
  has state \<open>SUCCESS\<close> or \<open>ERROR\<close> accordingly, the output the runner gave, and as elapsed
  time the second clock reading minus the first; no other bucket changes. The elapsed
  time is non-negative exactly when the clock has not gone back during the call. (When
  the runner raises another exception, that exception leaves \<open>_execute\<close> and the task is
  as it was.)
\<close>

theorem execute_outcome:
  assumes "DAList.lookup (queue s) p = Some bucket"
    and "list_index bucket i = Some n"
    and "check_output env (command (bucket ! n)) w = (out, w')"
  shows "fst (execute env p i s w) =
           (case out of Output b \<Rightarrow> Returned True | CalledProcessError b \<Rightarrow> Returned False | Raises e \<Rightarrow> Raised e) \<and>
         snd (snd (execute env p i s w)) = w' \<and>
         DAList.lookup (queue (fst (snd (execute env p i s w)))) p =
           Some (case out of
                   Output b \<Rightarrow>
                     bucket[n := (bucket ! n)
                       \<lparr>log_data := Some b, state := SUCCESS, time_processing := time env w' - time env w\<rparr>]
                 | CalledProcessError b \<Rightarrow>
                     bucket[n := (bucket ! n)
                       \<lparr>log_data := Some b, state := ERROR, time_processing := time env w' - time env w\<rparr>]
                 | Raises e \<Rightarrow> bucket) \<and>
         (\<forall>k. k \<noteq> p \<longrightarrow> DAList.lookup (queue (fst (snd (execute env p i s w)))) k = DAList.lookup (queue s) k) \<and>
         (0 \<le> time env w' - time env w) = (time env w \<le> time env w')"
  using assms
  by (cases out)
     (simp_all add: execute_def getitem_def execute_data_def log_to_def Let_def)

theorem execute_outcome_witness:
  "list_index [waiting_task ''exit 1''] 0 = Some 0 \<and>
   list_index [waiting_task ''dir''] (- 1) = Some 0 \<and>
   fst (execute stub_env 5 0 failing_tasks []) = Returned False \<and>
   DAList.lookup (queue (fst (snd (execute stub_env 5 0 failing_tasks [])))) 5 =
     Some [\<lparr>command = ''exit 1'', state = ERROR, log_data = Some ''boom'', time_processing = 1\<rparr>] \<and>
   fst (execute stub_env 7 (- 1) failing_tasks []) = Returned True \<and>
   DAList.lookup (queue (fst (snd (execute stub_env 7 (- 1) failing_tasks [])))) 7 =
     Some [\<lparr>command = ''dir'', state = SUCCESS, log_data = Some ''OK'', time_processing = 1\<rparr>]"
proof -
  have l5: "DAList.lookup (queue failing_tasks) 5 = Some [waiting_task ''exit 1'']"
    and l7: "DAList.lookup (queue failing_tasks) 7 = Some [waiting_task ''dir'']"
    by (simp_all add: failing_tasks_def eval_defs)
  have i5: "list_index [waiting_task ''exit 1''] 0 = Some 0"
    and i7: "list_index [waiting_task ''dir''] (- 1) = Some 0"
    by (simp_all add: list_index_def)
  have c5: "check_output stub_env (command ([waiting_task ''exit 1''] ! 0)) [] = (CalledProcessError ''boom'', [''exit 1''])"
    and c7: "check_output stub_env (command ([waiting_task ''dir''] ! 0)) [] = (Output ''OK'', [''dir''])"
    by (simp_all add: stub_env_def waiting_task_def)
  show ?thesis
    using execute_outcome [OF l5 i5 c5] execute_outcome [OF l7 i7 c7] i5 i7
    by (simp add: waiting_task_def stub_env_def)
qed

text \<open>
  Claim C10. When the queue has no bucket for \<open>p\<close>, \<open>_execute(p, i)\<close> raises \<open>IndexError\<close>
  for every index \<open>i\<close>, and the queue it leaves behind is not the one it was given: the
  lookup has inserted an empty bucket at \<open>p\<close>.
\<close>

theorem execute_missing_bucket:
  assumes "DAList.lookup (queue s) p = None"
  shows "execute env p i s w = (Raised IndexError, s\<lparr>queue := DAList.update p [] (queue s)\<rparr>, w) \<and>
         DAList.lookup (queue (fst (snd (execute env p i s w)))) p = Some [] \<and>
         queue (fst (snd (execute env p i s w))) \<noteq> queue s"
proof -
  have e: "execute env p i s w = (Raised IndexError, s\<lparr>queue := DAList.update p [] (queue s)\<rparr>, w)"
    using assms by (simp add: execute_def getitem_def list_index_def)
  have l: "DAList.lookup (DAList.update p [] (queue s)) p = Some []" by simp
  have "DAList.update p [] (queue s) \<noteq> queue s"
  proof
    assume "DAList.update p [] (queue s) = queue s"
    with l have "DAList.lookup (queue s) p = Some []" by simp
    with assms show False by simp
  qed
  then show ?thesis using e l by simp
qed

theorem execute_missing_bucket_witness:
  "execute stub_env 7 0 empty_pq [] =
     (Raised IndexError, \<lparr>queue = DAList.update 7 [] DAList.empty, logged = []\<rparr>, []) \<and>
   DAList.impl_of (queue (fst (snd (execute stub_env 7 0 empty_pq [])))) = [(7, [])] \<and>
   DAList.impl_of (queue empty_pq) = []"
  using execute_missing_bucket [of empty_pq 7 stub_env 0 "[]"]
  by (simp add: empty_pq_def DAList.update.rep_eq DAList.empty.rep_eq)

subsection \<open>Passes\<close>

lemma add_task_appends:
  assumes "task_priority task = Some p" and "fst (add_task task s)"
  shows "\<exists>c. task_command task = Some c \<and>
           DAList.lookup (queue (snd (add_task task s))) p =
             Some ((case DAList.lookup (queue s) p of None \<Rightarrow> [] | Some bucket \<Rightarrow> bucket) @
                   [\<lparr>command = c, state = WAITING, log_data = None, time_processing = 0\<rparr>])"
  using assms
  by (auto simp add: add_task_def getitem_def log_to_def split: option.splits if_splits)

text \<open>
  Claim C1. The commands \<open>run\<close> hands to \<open>_execute\<close> are logged, in order, by the first
  logging call of \<open>_execute\<close>. For every queue, the commands a pass that returns has
  executed are those of the waiting tasks, bucket after bucket from the largest priority
  to the smallest: the priorities along the pass never increase, the commands executed at
  a priority \<open>p\<close> are those of the waiting tasks of the bucket of \<open>p\<close> in the order of the
  bucket, and the world after the pass is the one these commands, run in that order, lead
  to. A pass that an exception of the runner ends has executed the first of these
  commands, in the same order. The order of a bucket is the order in which its tasks were
  added: \<open>add_task\<close> puts the task it accepts behind the tasks the bucket has. The
  instance after it is the scenario of the priorities 1, 10, 1.
\<close>

theorem run_execution_order:
  assumes "run env auto_clear s w = (r, s', w')"
  shows "((\<exists>b. r = Returned b) \<longrightarrow>
            executed (logged s') = executed (logged s) @ pending (run_order (queue s)) \<and>
            w' = foldl (\<lambda>w c. snd (check_output env c w)) w (map snd (pending (run_order (queue s))))) \<and>
         (\<exists>n. executed (logged s') = executed (logged s) @ take n (pending (run_order (queue s))) \<and>
              w' = foldl (\<lambda>w c. snd (check_output env c w)) w (map snd (take n (pending (run_order (queue s)))))) \<and>
         sorted_wrt (\<lambda>a b. fst b \<le> fst a) (pending (run_order (queue s))) \<and>
         (\<forall>p. map snd (filter (\<lambda>e. fst e = p) (pending (run_order (queue s)))) =
                map command (filter (\<lambda>d. state d = WAITING)
                  (case DAList.lookup (queue s) p of None \<Rightarrow> [] | Some bucket \<Rightarrow> bucket))) \<and>
         (task_priority task = Some k \<and> fst (add_task task t) \<longrightarrow>
            (\<exists>c. task_command task = Some c \<and>
               DAList.lookup (queue (snd (add_task task t))) k =
                 Some ((case DAList.lookup (queue t) k of None \<Rightarrow> [] | Some bucket \<Rightarrow> bucket) @
                       [\<lparr>command = c, state = WAITING, log_data = None, time_processing = 0\<rparr>])))"
proof -
  let ?n = "items_ran env (run_order (queue s)) w"
  have e: "executed (logged s') = executed (logged s) @ take ?n (pending (run_order (queue s)))"
    using run_executed[of env auto_clear s w] assms by simp
  have v: "w' = foldl (\<lambda>w c. snd (check_output env c w)) w (map snd (take ?n (pending (run_order (queue s)))))"
    using run_world[of env auto_clear s w] assms by (simp add: items_world_fold)
  have f: "executed (logged s') = executed (logged s) @ pending (run_order (queue s)) \<and>
            w' = foldl (\<lambda>w c. snd (check_output env c w)) w (map snd (pending (run_order (queue s))))"
    if "\<exists>b. r = Returned b"
  proof -
    from that obtain b where "fst (run env auto_clear s w) = Returned b" using assms by auto
    then have "?n = length (pending (run_order (queue s)))"
      by (simp add: run_returned items_ran_all)
    then show ?thesis using e v by simp
  qed
  have o: "sorted_wrt (\<lambda>a b. fst b \<le> fst a) (pending (run_order (queue s)))"
    by (rule pending_sorted) (rule run_order_sorted)
  have b: "map snd (filter (\<lambda>e. fst e = p) (pending (run_order (queue s)))) =
                map command (filter (\<lambda>d. state d = WAITING)
                  (case DAList.lookup (queue s) p of None \<Rightarrow> [] | Some bucket \<Rightarrow> bucket))" for p
    by (simp add: pending_of_priority[OF distinct_run_order] map_of_run_order comp_def split: option.splits)
  have a: "task_priority task = Some k \<and> fst (add_task task t) \<longrightarrow>
            (\<exists>c. task_command task = Some c \<and>
               DAList.lookup (queue (snd (add_task task t))) k =
                 Some ((case DAList.lookup (queue t) k of None \<Rightarrow> [] | Some bucket \<Rightarrow> bucket) @
                       [\<lparr>command = c, state = WAITING, log_data = None, time_processing = 0\<rparr>]))"
    using add_task_appends[of task k t] by blast
  show ?thesis using e v f o b a by blast
qed

theorem run_execution_order_witness:
  "DAList.impl_of (queue three_tasks) =
     [(1, [waiting_task ''first'', waiting_task ''second'']), (10, [waiting_task ''ten''])] \<and>
   fst (run stub_env False three_tasks []) = Returned True \<and>
   executed (logged (fst (snd (run stub_env False three_tasks [])))) =
     [(10, ''ten''), (1, ''first''), (1, ''second'')] \<and>
   snd (snd (run stub_env False three_tasks [])) = [''ten'', ''first'', ''second'']"
proof -
  have q: "DAList.impl_of (queue three_tasks) =
     [(1, [waiting_task ''first'', waiting_task ''second'']), (10, [waiting_task ''ten''])]"
    by (simp add: three_tasks_def eval_defs)
  have r: "fst (run stub_env False three_tasks []) = Returned True"
    by (simp add: three_tasks_def eval_defs)
  have h: "run stub_env False three_tasks [] =
      (Returned True, fst (snd (run stub_env False three_tasks [])), snd (snd (run stub_env False three_tasks [])))"
    using r by (simp add: prod_eq_iff)
  have p: "pending (run_order (queue three_tasks)) = [(10, ''ten''), (1, ''first''), (1, ''second'')]"
    by (simp add: run_order_def sorted_reverse_def q waiting_task_def)
  have l: "executed (logged three_tasks) = []"
    by (simp add: three_tasks_def eval_defs)
  have "executed (logged (fst (snd (run stub_env False three_tasks [])))) =
          executed (logged three_tasks) @ pending (run_order (queue three_tasks)) \<and>
        snd (snd (run stub_env False three_tasks [])) =
          foldl (\<lambda>w c. snd (check_output stub_env c w)) [] (map snd (pending (run_order (queue three_tasks))))"
    using run_execution_order [OF h, THEN conjunct1] by blast
  then show ?thesis using q r by (simp add: p l stub_env_def)
qed

text \<open>
  Claim C2. \<open>run\<close> returns true exactly when every task that was waiting when the pass
  began is in state \<open>SUCCESS\<close> after it. With a runner that raises nothing but
  \<open>CalledProcessError\<close>, \<open>run\<close> returns, and what it returns is the truth of that
  sentence. The outcome is the same with and without \<open>auto_clear\<close>; a pass over a queue
  without a waiting task returns true, whatever the states of its tasks.
\<close>

theorem run_result:
  assumes "run env False s w = (r, s', w')"
  shows "(r = Returned True) =
           (\<forall>p bucket. DAList.lookup (queue s) p = Some bucket \<longrightarrow>
              (\<forall>i < length bucket. state (bucket ! i) = WAITING \<longrightarrow>
                 (\<exists>bucket'. DAList.lookup (queue s') p = Some bucket' \<and> state (bucket' ! i) = SUCCESS))) \<and>
         (two_outcomes env \<longrightarrow>
            r = Returned (\<forall>p bucket. DAList.lookup (queue s) p = Some bucket \<longrightarrow>
              (\<forall>i < length bucket. state (bucket ! i) = WAITING \<longrightarrow>
                 (\<exists>bucket'. DAList.lookup (queue s') p = Some bucket' \<and> state (bucket' ! i) = SUCCESS)))) \<and>
         fst (run env True s w) = r \<and>
         ((\<forall>p bucket. DAList.lookup (queue s) p = Some bucket \<longrightarrow> (\<forall>d \<in> set bucket. state d \<noteq> WAITING)) \<longrightarrow>
            r = Returned True)"
proof -
  let ?all = "\<forall>p bucket. DAList.lookup (queue s) p = Some bucket \<longrightarrow>
              (\<forall>i < length bucket. state (bucket ! i) = WAITING \<longrightarrow>
                 (\<exists>bucket'. DAList.lookup (queue s') p = Some bucket' \<and> state (bucket' ! i) = SUCCESS))"
  have s': "s' = fst (snd (run env False s w))" and r: "r = fst (run env False s w)"
    using assms by simp_all
  have ret: "b = ?all" if "r = Returned b" for b
    using run_result_iff[of env s w b] that r s' by simp
  have rai: "\<not> ?all" if "r = Raised e" for e
  proof -
    from run_raised_waiting[of env s w e] that r s'
    obtain p ds i ds' where "DAList.lookup (queue s) p = Some ds" "i < length ds" "state (ds ! i) = WAITING"
      "DAList.lookup (queue s') p = Some ds'" "ds' ! i = ds ! i"
      by auto
    then show ?thesis by force
  qed
  have a: "(r = Returned True) = ?all"
  proof (cases r)
    case (Raised e)
    then show ?thesis using rai by simp
  next
    case (Returned b)
    then show ?thesis using ret by simp
  qed
  have t: "r = Returned ?all" if two: "two_outcomes env"
  proof -
    obtain b where "r = Returned b" using run_two_outcomes[OF two, of False s w] r by auto
    then show ?thesis using ret by simp
  qed
  have b: "fst (run env True s w) = r"
    by (simp add: r run_returns)
  have c: "r = Returned True"
    if "\<forall>p bucket. DAList.lookup (queue s) p = Some bucket \<longrightarrow> (\<forall>d \<in> set bucket. state d \<noteq> WAITING)"
    using run_idle[OF that, of env w] r by simp
  show ?thesis using a t b c by blast
qed

theorem run_result_witness:
  "fst (run stub_env False failing_tasks []) = Returned False \<and>
   fst (run stub_env True failing_tasks []) = Returned False \<and>
   fst (run stub_env False three_tasks []) = Returned True \<and>
   fst (run stub_env True three_tasks []) = Returned True \<and>
   fst (run stub_env False empty_pq []) = Returned True \<and>
   fst (run stub_env False (fst (snd (run stub_env False failing_tasks []))) [''dir'', ''exit 1'']) = Returned True"
proof -
  have h1: "run stub_env False failing_tasks [] =
      (fst (run stub_env False failing_tasks []), fst (snd (run stub_env False failing_tasks [])),
       snd (snd (run stub_env False failing_tasks [])))"
    by simp
  have h2: "run stub_env False three_tasks [] =
      (fst (run stub_env False three_tasks []), fst (snd (run stub_env False three_tasks [])),
       snd (snd (run stub_env False three_tasks [])))"
    by simp
  have a1: "fst (run stub_env True failing_tasks []) = fst (run stub_env False failing_tasks [])"
    using run_result [OF h1] by (rule conjunct2 [THEN conjunct2, THEN conjunct1])
  have a2: "fst (run stub_env True three_tasks []) = fst (run stub_env False three_tasks [])"
    using run_result [OF h2] by (rule conjunct2 [THEN conjunct2, THEN conjunct1])
  have b1: "fst (run stub_env False failing_tasks []) = Returned False"
    by (simp add: failing_tasks_def eval_defs)
  have b2: "fst (run stub_env False three_tasks []) = Returned True"
    by (simp add: three_tasks_def eval_defs)
  have b3: "fst (run stub_env False empty_pq []) = Returned True"
    by (simp add: eval_defs)
  have b4: "fst (run stub_env False (fst (snd (run stub_env False failing_tasks []))) [''dir'', ''exit 1'']) = Returned True"
    by (simp add: failing_tasks_def eval_defs)
  show ?thesis using a1 a2 b1 b2 b3 b4 by simp
qed

text \<open>
  Claim C5. After \<open>run(auto_clear=False)\<close> has returned, the queue has the keys it had,
  in the same order, and each bucket has the tasks it had, with the same commands: a task
  that was waiting now carries what \<open>_execute\<close> wrote to it (state, output, elapsed time)
  and is no longer waiting, every other task is as it was. A second pass right after it
  runs no command (the world is the same), leaves the queue as it is, logs that 0 tasks
  were processed and returns true.
\<close>

theorem run_twice:
  assumes "run env False s w = (Returned b, s', w')"
  shows "map fst (DAList.impl_of (queue s')) = map fst (DAList.impl_of (queue s)) \<and>
         (\<forall>p bucket. DAList.lookup (queue s) p = Some bucket \<longrightarrow>
            (\<exists>bucket'. DAList.lookup (queue s') p = Some bucket' \<and>
               length bucket' = length bucket \<and>
               map command bucket' = map command bucket \<and>
               (\<forall>i < length bucket.
                  if state (bucket ! i) = WAITING
                  then state (bucket' ! i) \<noteq> WAITING \<and>
                       (\<exists>wi. fst (execute_data env (bucket ! i) wi) = Returned (bucket' ! i))
                  else bucket' ! i = bucket ! i))) \<and>
         (\<forall>p bucket'. DAList.lookup (queue s') p = Some bucket' \<longrightarrow> (\<forall>d \<in> set bucket'. state d \<noteq> WAITING)) \<and>
         run env False s' w' = (Returned True, s'\<lparr>logged := logged s' @ [Info_start, Info_processed 0 0]\<rparr>, w')"
proof -
  have s': "s' = fst (snd (run env False s w))" and r: "fst (run env False s w) = Returned b"
    using assms by simp_all
  have k: "map fst (DAList.impl_of (queue s')) = map fst (DAList.impl_of (queue s))"
    unfolding s' by (rule run_keys)
  have c: "\<exists>bucket'. DAList.lookup (queue s') p = Some bucket' \<and>
               length bucket' = length bucket \<and>
               map command bucket' = map command bucket \<and>
               (\<forall>i < length bucket.
                  if state (bucket ! i) = WAITING
                  then state (bucket' ! i) \<noteq> WAITING \<and>
                       (\<exists>wi. fst (execute_data env (bucket ! i) wi) = Returned (bucket' ! i))
                  else bucket' ! i = bucket ! i)"
    if l: "DAList.lookup (queue s) p = Some bucket" for p bucket
  proof -
    obtain wp where a: "DAList.lookup (queue s') p = Some (bucket_after env bucket wp)"
      and n: "bucket_exn env bucket wp = None"
      using run_bucket[OF l r] s' by auto
    have "state (bucket_after env bucket wp ! i) \<noteq> WAITING \<and>
          (\<exists>wi. fst (execute_data env (bucket ! i) wi) = Returned (bucket_after env bucket wp ! i))"
      if "i < length bucket" and "state (bucket ! i) = WAITING" for i
      using that bucket_after_executed[OF n, of i] bucket_after_not_waiting[OF n, of "bucket_after env bucket wp ! i"]
      by simp
    moreover have "bucket_after env bucket wp ! i = bucket ! i"
      if "i < length bucket" and "state (bucket ! i) \<noteq> WAITING" for i
      using that by (rule bucket_after_kept)
    ultimately show ?thesis using a by simp
  qed
  have n: "\<forall>p bucket'. DAList.lookup (queue s') p = Some bucket' \<longrightarrow> (\<forall>d \<in> set bucket'. state d \<noteq> WAITING)"
    unfolding s' using run_leaves_none_waiting[OF r] by blast
  have t: "run env False s' w' = (Returned True, s'\<lparr>logged := logged s' @ [Info_start, Info_processed 0 0]\<rparr>, w')"
    using n by (rule run_idle)
  show ?thesis using k c n t by blast
qed

theorem run_twice_witness:
  "DAList.impl_of (queue failing_tasks) = [(5, [waiting_task ''exit 1'']), (7, [waiting_task ''dir''])] \<and>
   fst (run stub_env False failing_tasks []) = Returned False \<and>
   DAList.impl_of (queue (fst (snd (run stub_env False failing_tasks [])))) =
     [(5, [\<lparr>command = ''exit 1'', state = ERROR, log_data = Some ''boom'', time_processing = 1\<rparr>]),
      (7, [\<lparr>command = ''dir'', state = SUCCESS, log_data = Some ''OK'', time_processing = 1\<rparr>])] \<and>
   snd (snd (run stub_env False failing_tasks [])) = [''dir'', ''exit 1''] \<and>
   fst (run stub_env False (fst (snd (run stub_env False failing_tasks []))) [''dir'', ''exit 1'']) = Returned True \<and>
   snd (snd (run stub_env False (fst (snd (run stub_env False failing_tasks []))) [''dir'', ''exit 1''])) = [''dir'', ''exit 1''] \<and>
   queue (fst (snd (run stub_env False (fst (snd (run stub_env False failing_tasks []))) [''dir'', ''exit 1'']))) =
     queue (fst (snd (run stub_env False failing_tasks [])))"
proof -
  have r: "fst (run stub_env False failing_tasks []) = Returned False"
    by (simp add: failing_tasks_def eval_defs)
  have h: "run stub_env False failing_tasks [] =
      (Returned False, fst (snd (run stub_env False failing_tasks [])),
       snd (snd (run stub_env False failing_tasks [])))"
    using r by (simp add: prod_eq_iff)
  have q0: "DAList.impl_of (queue failing_tasks) = [(5, [waiting_task ''exit 1'']), (7, [waiting_task ''dir''])]"
    by (simp add: failing_tasks_def eval_defs)
  have q1: "DAList.impl_of (queue (fst (snd (run stub_env False failing_tasks [])))) =
     [(5, [\<lparr>command = ''exit 1'', state = ERROR, log_data = Some ''boom'', time_processing = 1\<rparr>]),
      (7, [\<lparr>command = ''dir'', state = SUCCESS, log_data = Some ''OK'', time_processing = 1\<rparr>])]"
    by (simp add: failing_tasks_def eval_defs)
  have w1: "snd (snd (run stub_env False failing_tasks [])) = [''dir'', ''exit 1'']"
    by (simp add: failing_tasks_def eval_defs)
  have "run stub_env False (fst (snd (run stub_env False failing_tasks []))) (snd (snd (run stub_env False failing_tasks []))) =
      (Returned True,
       (fst (snd (run stub_env False failing_tasks [])))
         \<lparr>logged := logged (fst (snd (run stub_env False failing_tasks []))) @ [Info_start, Info_processed 0 0]\<rparr>,
       snd (snd (run stub_env False failing_tasks [])))"
    using run_twice [OF h] by (rule conjunct2 [THEN conjunct2, THEN conjunct2])
  then have t: "run stub_env False (fst (snd (run stub_env False failing_tasks []))) [''dir'', ''exit 1''] =
      (Returned True,
       (fst (snd (run stub_env False failing_tasks [])))
         \<lparr>logged := logged (fst (snd (run stub_env False failing_tasks []))) @ [Info_start, Info_processed 0 0]\<rparr>,
       [''dir'', ''exit 1''])"
    unfolding w1 .
  show ?thesis unfolding t using q0 q1 w1 r by simp
qed



lemma two_outcomes_stub_env: "two_outcomes stub_env"
  by (simp add: two_outcomes_def stub_env_def)


subsection \<open>The states of a task\<close>

lemma add_task_keeps:
  assumes "task_at (queue s) p i = Some d"
  shows "task_at (queue (snd (add_task task s))) p i = Some d"
  using assms
  by (auto simp add: task_at_def add_task_def getitem_def log_to_def DAList.lookup_update nth_append
      split: option.splits if_splits)

lemma add_task_new:
  assumes "fst (add_task task s)"
  shows "\<exists>p c. task_priority task = Some p \<and> task_command task = Some c \<and>
           task_at (queue (snd (add_task task s))) p
             (case DAList.lookup (queue s) p of None \<Rightarrow> 0 | Some bucket \<Rightarrow> length bucket) =
           Some \<lparr>command = c, state = WAITING, log_data = None, time_processing = 0\<rparr>"
  using assms
  by (auto simp add: task_at_def add_task_def getitem_def log_to_def split: option.splits if_splits)

lemma run_keeps_terminal:
  assumes "task_at (queue s) p i = Some d" and "state d \<noteq> WAITING"
  shows "task_at (queue (fst (snd (run env False s w)))) p i = Some d"
proof -
  obtain bucket where l: "DAList.lookup (queue s) p = Some bucket" and i: "i < length bucket" and d: "bucket ! i = d"
    using assms(1) by (auto simp add: task_at_def split: option.splits if_splits)
  obtain ds' where "DAList.lookup (queue (fst (snd (run env False s w)))) p = Some ds'"
    and "length ds' = length bucket"
    and "\<forall>i < length bucket. state (bucket ! i) \<noteq> WAITING \<longrightarrow> ds' ! i = bucket ! i"
    using run_kept[OF l, of env w] by blast
  then show ?thesis using i d assms(2) by (simp add: task_at_def)
qed

lemma run_settles:
  assumes "task_at (queue s) p i = Some d" and "state d = WAITING"
    and "fst (run env False s w) = Returned b"
  shows "\<exists>d'. task_at (queue (fst (snd (run env False s w)))) p i = Some d' \<and> command d' = command d \<and>
           (state d' = SUCCESS \<or> state d' = ERROR)"
proof -
  obtain bucket where l: "DAList.lookup (queue s) p = Some bucket" and i: "i < length bucket" and d: "bucket ! i = d"
    using assms(1) by (auto simp add: task_at_def split: option.splits if_splits)
  obtain wp where a: "DAList.lookup (queue (fst (snd (run env False s w)))) p = Some (bucket_after env bucket wp)"
    and n: "bucket_exn env bucket wp = None"
    using run_bucket[OF l assms(3)] by blast
  obtain wi where e: "fst (execute_data env d wi) = Returned (bucket_after env bucket wp ! i)"
    using bucket_after_executed[OF n, of i] i d assms(2) by auto
  then have ed: "execute_data env d wi = (Returned (bucket_after env bucket wp ! i), snd (execute_data env d wi))"
    by (simp add: prod_eq_iff)
  have "state (bucket_after env bucket wp ! i) \<noteq> WAITING"
    and c: "command (bucket_after env bucket wp ! i) = command d"
    using execute_data_written[OF ed] by simp_all
  then have "state (bucket_after env bucket wp ! i) = SUCCESS \<or> state (bucket_after env bucket wp ! i) = ERROR"
    by (cases "state (bucket_after env bucket wp ! i)") simp_all
  then show ?thesis using a c i by (simp add: task_at_def)
qed

lemma apply_op_run: "fst (snd (apply_op env (Run auto_clear) s w)) = fst (snd (run env auto_clear s w))"
  by (cases "run env auto_clear s w") (simp split: result.splits)

lemma apply_op_two_outcomes: "two_outcomes env \<Longrightarrow> fst (apply_op env x s w) = Returned ()"
proof (cases x)
  case (Run auto_clear)
  assume two: "two_outcomes env"
  obtain b where "fst (run env auto_clear s w) = Returned b"
    using run_two_outcomes[OF two, of auto_clear s w] by blast
  then show ?thesis using Run
    by (cases "run env auto_clear s w") (simp split: result.splits)
qed simp_all

lemma apply_op_keeps_terminal:
  assumes "task_at (queue s) p i = Some d" and "state d \<noteq> WAITING" and "\<not> clears x"
  shows "task_at (queue (fst (snd (apply_op env x s w)))) p i = Some d"
proof (cases x)
  case (Add_task task)
  then show ?thesis using assms(1) by (simp add: add_task_keeps)
next
  case (Run auto_clear)
  then have x: "x = Run False" using assms(3) by simp
  have "task_at (queue (fst (snd (run env False s w)))) p i = Some d"
    using assms(1,2) by (rule run_keeps_terminal)
  then show ?thesis unfolding x apply_op_run .
next
  case Clear_queue
  then show ?thesis using assms(3) by simp
qed

lemma apply_ops_keeps_terminal:
  assumes "task_at (queue s) p i = Some d" and "state d \<noteq> WAITING" and "\<forall>x \<in> set xs. \<not> clears x"
  shows "task_at (queue (fst (snd (apply_ops env xs s w)))) p i = Some d"
  using assms
proof (induction xs arbitrary: s w)
  case Nil
  then show ?case by simp
next
  case (Cons x xs)
  obtain r s' w' where a: "apply_op env x s w = (r, s', w')"
    by (cases "apply_op env x s w")
  have k: "task_at (queue s') p i = Some d"
    using apply_op_keeps_terminal[of s p i d x env w] Cons.prems a by simp
  show ?case
  proof (cases r)
    case (Raised e)
    then show ?thesis using a k by simp
  next
    case (Returned u)
    from Cons.IH[OF k Cons.prems(2)] Cons.prems(3) show ?thesis using a Returned by simp
  qed
qed

lemma apply_ops_two_outcomes: "two_outcomes env \<Longrightarrow> fst (apply_ops env xs s w) = Returned ()"
proof (induction xs arbitrary: s w)
  case Nil
  then show ?case by simp
next
  case (Cons x xs)
  obtain s' w' where "apply_op env x s w = (Returned (), s', w')"
    using apply_op_two_outcomes[OF Cons.prems, of x s w] by (cases "apply_op env x s w") auto
  then show ?case using Cons by simp
qed

lemma apply_op_clears:
  assumes "clears x" and "fst (apply_op env x s w) = Returned ()"
  shows "queue (fst (snd (apply_op env x s w))) = DAList.empty"
proof (cases x)
  case (Run auto_clear)
  then have x: "x = Run True" using assms(1) by simp
  then obtain b where "fst (run env True s w) = Returned b"
    using assms(2) by (cases "run env True s w") (auto split: result.splits)
  then have "queue (fst (snd (run env True s w))) = DAList.empty"
    by (rule run_queue_clear)
  then show ?thesis unfolding x apply_op_run .
next
  case Clear_queue
  then show ?thesis by (simp add: clear_queue_def)
next
  case (Add_task task)
  then show ?thesis using assms by simp
qed

lemmas ops_defs = task_at_def failed_once_def failing_tasks_def

text \<open>
  Claim C9. A task that \<open>add_task\<close> accepts enters its bucket, at the end, in state
  \<open>WAITING\<close>, and \<open>add_task\<close> changes no task that was in the queue. A pass that returns
  has taken each waiting task to \<open>SUCCESS\<close> or \<open>ERROR\<close>, with the command it had. A task
  that is in state \<open>SUCCESS\<close> or \<open>ERROR\<close> stays exactly as it is (state, output and
  elapsed time) through every sequence of \<open>add_task\<close> and \<open>run\<close> calls that does not
  empty the queue, also when an exception of the runner ends the sequence; with a runner
  that raises nothing but \<open>CalledProcessError\<close> no such sequence raises. A call that
  empties the queue and returns leaves no task at all, so in any sequence of calls the
  task is unchanged up to the first call that empties the queue and gone after it. The
  commands a pass executes are, in order, the first of those of the tasks that were
  waiting, and at each priority these are the commands of the waiting tasks of the bucket
  and of no other task, so a task that is not waiting is not executed again.
\<close>

theorem task_state_transitions:
  "(fst (add_task task s) \<longrightarrow>
      (\<exists>p c. task_priority task = Some p \<and> task_command task = Some c \<and>
         task_at (queue (snd (add_task task s))) p
           (case DAList.lookup (queue s) p of None \<Rightarrow> 0 | Some bucket \<Rightarrow> length bucket) =
         Some \<lparr>command = c, state = WAITING, log_data = None, time_processing = 0\<rparr>)) \<and>
   (task_at (queue s) p i = Some d \<longrightarrow> task_at (queue (snd (add_task task s))) p i = Some d) \<and>
   (task_at (queue s) p i = Some d \<and> state d = WAITING \<and> (\<exists>b. fst (run env False s w) = Returned b) \<longrightarrow>
      (\<exists>d'. task_at (queue (fst (snd (run env False s w)))) p i = Some d' \<and> command d' = command d \<and>
         (state d' = SUCCESS \<or> state d' = ERROR))) \<and>
   (task_at (queue s) p i = Some d \<and> state d \<noteq> WAITING \<and> (\<forall>x \<in> set xs. \<not> clears x) \<longrightarrow>
      task_at (queue (fst (snd (apply_ops env xs s w)))) p i = Some d \<and>
      (two_outcomes env \<longrightarrow> fst (apply_ops env xs s w) = Returned ())) \<and>
   (clears x \<and> fst (apply_op env x s w) = Returned () \<longrightarrow>
      queue (fst (snd (apply_op env x s w))) = DAList.empty) \<and>
   (\<exists>n. executed (logged (fst (snd (run env auto_clear s w)))) =
          executed (logged s) @ take n (pending (run_order (queue s)))) \<and>
   ((\<exists>b. fst (run env auto_clear s w) = Returned b) \<longrightarrow>
      executed (logged (fst (snd (run env auto_clear s w)))) =
        executed (logged s) @ pending (run_order (queue s))) \<and>
   map snd (filter (\<lambda>e. fst e = p) (pending (run_order (queue s)))) =
     map command (filter (\<lambda>d. state d = WAITING)
       (case DAList.lookup (queue s) p of None \<Rightarrow> [] | Some bucket \<Rightarrow> bucket))"
proof -
  have a: "fst (add_task task s) \<longrightarrow>
      (\<exists>p c. task_priority task = Some p \<and> task_command task = Some c \<and>
         task_at (queue (snd (add_task task s))) p
           (case DAList.lookup (queue s) p of None \<Rightarrow> 0 | Some bucket \<Rightarrow> length bucket) =
         Some \<lparr>command = c, state = WAITING, log_data = None, time_processing = 0\<rparr>)"
    using add_task_new[of task s] by blast
  have b: "task_at (queue s) p i = Some d \<longrightarrow> task_at (queue (snd (add_task task s))) p i = Some d"
    by (simp add: add_task_keeps)
  have c: "task_at (queue s) p i = Some d \<and> state d = WAITING \<and> (\<exists>b. fst (run env False s w) = Returned b) \<longrightarrow>
      (\<exists>d'. task_at (queue (fst (snd (run env False s w)))) p i = Some d' \<and> command d' = command d \<and>
         (state d' = SUCCESS \<or> state d' = ERROR))"
    using run_settles[of s p i d env w] by blast
  have e: "task_at (queue s) p i = Some d \<and> state d \<noteq> WAITING \<and> (\<forall>x \<in> set xs. \<not> clears x) \<longrightarrow>
      task_at (queue (fst (snd (apply_ops env xs s w)))) p i = Some d \<and>
      (two_outcomes env \<longrightarrow> fst (apply_ops env xs s w) = Returned ())"
    using apply_ops_keeps_terminal[of s p i d xs env w] apply_ops_two_outcomes[of env xs s w] by blast
  have f: "clears x \<and> fst (apply_op env x s w) = Returned () \<longrightarrow>
      queue (fst (snd (apply_op env x s w))) = DAList.empty"
    using apply_op_clears[of x env s w] by blast
  have g: "\<exists>n. executed (logged (fst (snd (run env auto_clear s w)))) =
          executed (logged s) @ take n (pending (run_order (queue s)))"
    using run_executed[of env auto_clear s w] by blast
  have g': "(\<exists>b. fst (run env auto_clear s w) = Returned b) \<longrightarrow>
      executed (logged (fst (snd (run env auto_clear s w)))) =
        executed (logged s) @ pending (run_order (queue s))"
    using run_executed[of env auto_clear s w] by (auto simp add: run_returned items_ran_all)
  have h: "map snd (filter (\<lambda>e. fst e = p) (pending (run_order (queue s)))) =
     map command (filter (\<lambda>d. state d = WAITING)
       (case DAList.lookup (queue s) p of None \<Rightarrow> [] | Some bucket \<Rightarrow> bucket))"
    by (simp add: pending_of_priority[OF distinct_run_order] map_of_run_order comp_def split: option.splits)
  show ?thesis using a b c e f g g' h by blast
qed

theorem task_state_transitions_witness:
  "task_at (queue failed_once) 5 0 =
     Some \<lparr>command = ''exit 1'', state = ERROR, log_data = Some ''boom'', time_processing = 1\<rparr> \<and>
   fst (apply_ops stub_env [Add_task (new_task 5 ''dir''), Run False, Add_task (new_task 5 ''exit 1''), Run False]
          failed_once [''dir'', ''exit 1'']) = Returned () \<and>
   task_at (queue (fst (snd (apply_ops stub_env
        [Add_task (new_task 5 ''dir''), Run False, Add_task (new_task 5 ''exit 1''), Run False]
        failed_once [''dir'', ''exit 1''])))) 5 0 =
     Some \<lparr>command = ''exit 1'', state = ERROR, log_data = Some ''boom'', time_processing = 1\<rparr> \<and>
   snd (snd (apply_ops stub_env
        [Add_task (new_task 5 ''dir''), Run False, Add_task (new_task 5 ''exit 1''), Run False]
        failed_once [''dir'', ''exit 1''])) = [''dir'', ''exit 1'', ''dir'', ''exit 1'']"
proof -
  let ?d = "\<lparr>command = ''exit 1'', state = ERROR, log_data = Some ''boom'', time_processing = 1\<rparr>"
  let ?xs = "[Add_task (new_task 5 ''dir''), Run False, Add_task (new_task 5 ''exit 1''), Run False]"
  have t0: "task_at (queue failed_once) 5 0 = Some ?d"
    by (simp add: ops_defs eval_defs)
  have h: "task_at (queue failed_once) 5 0 = Some ?d \<and> state ?d \<noteq> WAITING \<and> (\<forall>x \<in> set ?xs. \<not> clears x)"
    using t0 by simp
  have t: "task_at (queue (fst (snd (apply_ops stub_env ?xs failed_once [''dir'', ''exit 1''])))) 5 0 = Some ?d \<and>
      (two_outcomes stub_env \<longrightarrow> fst (apply_ops stub_env ?xs failed_once [''dir'', ''exit 1'']) = Returned ())"
    using task_state_transitions [where s = failed_once and p = 5 and i = 0 and d = ?d and xs = ?xs
        and env = stub_env and w = "[''dir'', ''exit 1'']",
        THEN conjunct2, THEN conjunct2, THEN conjunct2, THEN conjunct1] h
    by (rule mp)
  have v: "snd (snd (apply_ops stub_env ?xs failed_once [''dir'', ''exit 1''])) = [''dir'', ''exit 1'', ''dir'', ''exit 1'']"
    by (simp add: ops_defs eval_defs)
  show ?thesis using t0 t v two_outcomes_stub_env by simp
qed

end
